theory Spec2Isabelle
  imports Complex_Main "HOL-Library.AList"
begin

section \<open>Python values, errors and control flow\<close>

text \<open>
  The exceptions that the code of \<^verbatim>\<open>resolve_sets.py\<close> can raise. A function that may
  raise returns \<open>error + 'a\<close>, with \<open>Inl\<close> for the exception.
\<close>

datatype error = TypeError | ValueError | KeyError | IndexError

type_synonym 'a result = "error + 'a"

text \<open>\<^verbatim>\<open>range(n)\<close> for an integer \<open>n\<close>: the integers \<open>0, ..., n - 1\<close>, none when \<open>n \<le> 0\<close>.\<close>

definition py_range :: "int \<Rightarrow> int list" where
  "py_range n = map int [0..<nat n]"

text \<open>\<^verbatim>\<open>i in range(n)\<close> for integers \<open>i\<close> and \<open>n\<close>.\<close>

definition in_range :: "int \<Rightarrow> int \<Rightarrow> bool" where
  "in_range i n = (0 \<le> i \<and> i < n)"

text \<open>
  \<^verbatim>\<open>xs[i]\<close> and \<^verbatim>\<open>xs[i] = v\<close> on a Python list: a negative index counts from the end,
  an index outside the list raises \<^verbatim>\<open>IndexError\<close>.
\<close>

definition list_position :: "nat \<Rightarrow> int \<Rightarrow> nat option" where
  "list_position len i =
     (if 0 \<le> i \<and> i < int len then Some (nat i)
      else if i < 0 \<and> - int len \<le> i then Some (nat (int len + i))
      else None)"

definition py_index :: "'a list \<Rightarrow> int \<Rightarrow> 'a result" where
  "py_index xs i =
     (case list_position (length xs) i of
        None \<Rightarrow> Inl IndexError
      | Some k \<Rightarrow> Inr (xs ! k))"

definition py_store :: "'a list \<Rightarrow> int \<Rightarrow> 'a \<Rightarrow> 'a list result" where
  "py_store xs i v =
     (case list_position (length xs) i of
        None \<Rightarrow> Inl IndexError
      | Some k \<Rightarrow> Inr (xs[k := v]))"

text \<open>
  A \<^verbatim>\<open>for\<close> loop whose body mutates an object and may raise: the loop stops at the first
  exception, and the object keeps what the earlier iterations wrote.
\<close>

fun for_loop :: "'a list \<Rightarrow> ('a \<Rightarrow> 's \<Rightarrow> unit result \<times> 's) \<Rightarrow> 's \<Rightarrow> unit result \<times> 's" where
  "for_loop [] body s = (Inr (), s)"
| "for_loop (x # xs) body s =
     (case body x s of
        (Inl e, s') \<Rightarrow> (Inl e, s')
      | (Inr _, s') \<Rightarrow> for_loop xs body s')"

text \<open>A \<^verbatim>\<open>for\<close> loop that updates a local variable and may raise.\<close>

fun fold_result :: "('a \<Rightarrow> 'b \<Rightarrow> 'b result) \<Rightarrow> 'a list \<Rightarrow> 'b \<Rightarrow> 'b result" where
  "fold_result f [] acc = Inr acc"
| "fold_result f (x # xs) acc =
     (case f x acc of Inl e \<Rightarrow> Inl e | Inr acc' \<Rightarrow> fold_result f xs acc')"

text \<open>A list comprehension whose element expression may raise.\<close>

fun map_result :: "('a \<Rightarrow> 'b result) \<Rightarrow> 'a list \<Rightarrow> 'b list result" where
  "map_result f [] = Inr []"
| "map_result f (x # xs) =
     (case f x of
        Inl e \<Rightarrow> Inl e
      | Inr y \<Rightarrow> (case map_result f xs of Inl e \<Rightarrow> Inl e | Inr ys \<Rightarrow> Inr (y # ys)))"

text \<open>\<^verbatim>\<open>str(n)\<close> for an integer: its decimal digits, with a minus sign when negative.\<close>

definition digit_char :: "nat \<Rightarrow> char" where
  "digit_char d = ''0123456789'' ! d"

fun str_nat :: "nat \<Rightarrow> string" where
  "str_nat n = (if n < 10 then [digit_char n] else str_nat (n div 10) @ [digit_char (n mod 10)])"

declare str_nat.simps [simp del]

definition str_int :: "int \<Rightarrow> string" where
  "str_int i = (if i < 0 then CHR ''-'' # str_nat (nat (- i)) else str_nat (nat i))"


section \<open>The grid: class \<^verbatim>\<open>PlateSet\<close>\<close>

definition FILL :: nat where
  "FILL = 5"

text \<open>The value of the attribute \<^verbatim>\<open>_null\<close> of every instance: \<^verbatim>\<open>"x" * FILL\<close>.\<close>

definition null_value :: string where
  "null_value = replicate FILL CHR ''x''"

record plateset =
  num_rows :: int
  num_cols :: int
  num_wells :: int
  grid :: "string list list"

text \<open>
  \<^verbatim>\<open>PlateSet(rows, cols)\<close> for two integers (the type checks of \<^verbatim>\<open>__init__\<close> on other
  arguments are modelled by \<open>init\<close> below).
\<close>

definition PlateSet :: "int \<Rightarrow> int \<Rightarrow> plateset" where
  "PlateSet rows cols =
     \<lparr>num_rows = rows, num_cols = cols, num_wells = cols * rows,
      grid = map (\<lambda>_. map (\<lambda>_. null_value) (py_range cols)) (py_range rows)\<rparr>"

subsection \<open>The constructor on arguments of any type\<close>

text \<open>
  \<^verbatim>\<open>__init__\<close> on arguments of any type. The values that reach it are integers, floats,
  strings and \<^verbatim>\<open>None\<close>; a float is the rational number it stands for (infinities and NaN
  are left out, and so is the rounding of a product of floats, which \<^verbatim>\<open>__init__\<close> stores in
  \<^verbatim>\<open>num_wells\<close> and never reads). \<^verbatim>\<open>int(x)\<close> truncates towards zero, a float equals an
  integer when their values agree, \<^verbatim>\<open>*\<close> multiplies numbers and repeats a string, and
  \<^verbatim>\<open>range\<close> takes nothing but an integer. The object that comes out has the attributes as
  they were assigned, of whatever type.
\<close>

datatype pyval = PInt int | PFloat rat | PStr string | PNone

record dyn_plateset =
  dyn_num_rows :: pyval
  dyn_num_cols :: pyval
  dyn_num_wells :: pyval
  dyn_grid :: "string list list"

definition is_int :: "pyval \<Rightarrow> bool" where
  "is_int v = (case v of PInt _ \<Rightarrow> True | _ \<Rightarrow> False)"

definition int_of_float :: "rat \<Rightarrow> int" where
  "int_of_float x = (if 0 \<le> x then \<lfloor>x\<rfloor> else \<lceil>x\<rceil>)"

fun py_mul :: "pyval \<Rightarrow> pyval \<Rightarrow> pyval result" where
  "py_mul (PInt m) (PInt n) = Inr (PInt (m * n))"
| "py_mul (PInt m) (PFloat y) = Inr (PFloat (of_int m * y))"
| "py_mul (PFloat x) (PInt n) = Inr (PFloat (x * of_int n))"
| "py_mul (PFloat x) (PFloat y) = Inr (PFloat (x * y))"
| "py_mul (PStr a) (PInt n) = Inr (PStr (concat (replicate (nat n) a)))"
| "py_mul (PInt n) (PStr a) = Inr (PStr (concat (replicate (nat n) a)))"
| "py_mul _ _ = Inl TypeError"

definition range_of :: "pyval \<Rightarrow> int list result" where
  "range_of v = (case v of PInt n \<Rightarrow> Inr (py_range n) | _ \<Rightarrow> Inl TypeError)"

definition init :: "pyval \<Rightarrow> pyval \<Rightarrow> dyn_plateset result" where
  "init rows cols =
     (case (case (rows, cols) of
              (PFloat x, PFloat y) \<Rightarrow>
                if \<not> (of_int (int_of_float x) = x \<and> of_int (int_of_float y) = y) then Inl TypeError
                else Inr (PInt (int_of_float x), PInt (int_of_float y))
            | _ \<Rightarrow>
                if \<not> (is_int rows \<or> is_int cols) then Inl TypeError
                else Inr (rows, cols)) of
        Inl e \<Rightarrow> Inl e
      | Inr (rows', cols') \<Rightarrow>
          (case py_mul cols' rows' of
             Inl e \<Rightarrow> Inl e
           | Inr wells \<Rightarrow>
               (case range_of rows' of
                  Inl e \<Rightarrow> Inl e
                | Inr rs \<Rightarrow>
                    (case map_result (\<lambda>_. case range_of cols' of
                                             Inl e \<Rightarrow> Inl e
                                           | Inr cs \<Rightarrow> Inr (map (\<lambda>_. null_value) cs)) rs of
                       Inl e \<Rightarrow> Inl e
                     | Inr g \<Rightarrow>
                         Inr \<lparr>dyn_num_rows = rows', dyn_num_cols = cols',
                              dyn_num_wells = wells, dyn_grid = g\<rparr>))))"

subsection \<open>Cells\<close>

text \<open>
  The methods take their position as \<^verbatim>\<open>*position\<close>, either two integers or one pair; both
  calling conventions end in \<^verbatim>\<open>row, col\<close>, here a pair.
\<close>

definition value_of :: "plateset \<Rightarrow> int \<times> int \<Rightarrow> string result" where
  "value_of s p =
     (case p of (row, col) \<Rightarrow>
        if \<not> (in_range row (num_rows s) \<and> in_range col (num_cols s)) then Inl ValueError
        else case py_index (grid s) row of
               Inl e \<Rightarrow> Inl e
             | Inr r \<Rightarrow> py_index r col)"

definition get_rows :: "plateset \<Rightarrow> string list list" where
  "get_rows s = grid s"

text \<open>
  \<^verbatim>\<open>self.grid[row][col] = value\<close> after the range check. The result is the outcome of the
  call and the object after it.
\<close>

definition store_cell :: "string \<Rightarrow> int \<times> int \<Rightarrow> plateset \<Rightarrow> unit result \<times> plateset" where
  "store_cell v p s =
     (case p of (row, col) \<Rightarrow>
        case py_index (grid s) row of
          Inl e \<Rightarrow> (Inl e, s)
        | Inr r \<Rightarrow>
            (case py_store r col v of
               Inl e \<Rightarrow> (Inl e, s)
             | Inr r' \<Rightarrow>
                 (case py_store (grid s) row r' of
                    Inl e \<Rightarrow> (Inl e, s)
                  | Inr g' \<Rightarrow> (Inr (), s\<lparr>grid := g'\<rparr>))))"

definition insert_well :: "string \<Rightarrow> int \<times> int \<Rightarrow> plateset \<Rightarrow> unit result \<times> plateset" where
  "insert_well v p s =
     (case p of (row, col) \<Rightarrow>
        if \<not> (in_range row (num_rows s) \<and> in_range col (num_cols s)) then (Inl ValueError, s)
        else store_cell v (row, col) s)"

definition remove_well :: "int \<times> int \<Rightarrow> plateset \<Rightarrow> unit result \<times> plateset" where
  "remove_well p s =
     (case p of (row, col) \<Rightarrow>
        if \<not> (in_range row (num_rows s) \<and> in_range col (num_cols s)) then (Inl ValueError, s)
        else store_cell null_value (row, col) s)"

definition count_defaults :: "plateset \<Rightarrow> int result" where
  "count_defaults s =
     fold_result (\<lambda>row_idx.
       fold_result (\<lambda>col_idx num_default.
         case value_of s (row_idx, col_idx) of
           Inl e \<Rightarrow> Inl e
         | Inr v \<Rightarrow> Inr (if v = null_value then num_default + 1 else num_default))
       (py_range (num_cols s)))
     (py_range (num_rows s)) 0"

definition clear :: "plateset \<Rightarrow> unit result \<times> plateset" where
  "clear s =
     for_loop (py_range (num_rows s)) (\<lambda>row_idx.
       for_loop (py_range (num_cols s)) (\<lambda>col_idx. remove_well (row_idx, col_idx))) s"

text \<open>\<^verbatim>\<open>self.fill_by_other(other)\<close>; \<open>s\<close> is \<^verbatim>\<open>self\<close>.\<close>

definition fill_by_other :: "plateset \<Rightarrow> plateset \<Rightarrow> unit result \<times> plateset" where
  "fill_by_other other s =
     (if num_rows s \<noteq> num_rows other \<and> num_cols s \<noteq> num_rows other then (Inl ValueError, s)
      else
        for_loop (py_range (num_rows other)) (\<lambda>row_idx.
          for_loop (py_range (num_cols other)) (\<lambda>col_idx s'.
            case value_of other (row_idx, col_idx) of
              Inl e \<Rightarrow> (Inl e, s')
            | Inr v \<Rightarrow> insert_well v (row_idx, col_idx) s')) s)"

definition copy :: "plateset \<Rightarrow> plateset result" where
  "copy s =
     (case for_loop (py_range (num_rows s)) (\<lambda>row_idx.
             for_loop (py_range (num_cols s)) (\<lambda>col_idx c.
               case value_of s (row_idx, col_idx) of
                 Inl e \<Rightarrow> (Inl e, c)
               | Inr v \<Rightarrow> insert_well v (row_idx, col_idx) c))
           (PlateSet (num_rows s) (num_cols s)) of
        (Inl e, _) \<Rightarrow> Inl e
      | (Inr _, c) \<Rightarrow> Inr c)"

text \<open>
  \<^verbatim>\<open>self.is_equal_to(other)\<close>. The two loops return \<^verbatim>\<open>False\<close> at the first cell that
  differs; \<open>Inr True\<close> from a loop means that it ran to its end.
  In the guard, \<^verbatim>\<open>not\<close> binds tighter than \<^verbatim>\<open>and\<close>.
\<close>

fun is_equal_cols :: "plateset \<Rightarrow> plateset \<Rightarrow> int \<Rightarrow> int list \<Rightarrow> bool result" where
  "is_equal_cols s other row_idx [] = Inr True"
| "is_equal_cols s other row_idx (col_idx # cols) =
     (case value_of s (row_idx, col_idx) of
        Inl e \<Rightarrow> Inl e
      | Inr a \<Rightarrow>
          (case value_of other (row_idx, col_idx) of
             Inl e \<Rightarrow> Inl e
           | Inr b \<Rightarrow> if \<not> a = b then Inr False else is_equal_cols s other row_idx cols))"

fun is_equal_rows :: "plateset \<Rightarrow> plateset \<Rightarrow> int list \<Rightarrow> bool result" where
  "is_equal_rows s other [] = Inr True"
| "is_equal_rows s other (row_idx # rows) =
     (case is_equal_cols s other row_idx (py_range (num_cols s)) of
        Inl e \<Rightarrow> Inl e
      | Inr False \<Rightarrow> Inr False
      | Inr True \<Rightarrow> is_equal_rows s other rows)"

definition is_equal_to :: "plateset \<Rightarrow> plateset \<Rightarrow> bool result" where
  "is_equal_to s other =
     (if (\<not> num_rows s = num_rows other) \<and> num_cols s = num_cols other then Inr False
      else is_equal_rows s other (py_range (num_rows s)))"

subsection \<open>Pools\<close>

text \<open>
  A dictionary is an association list in insertion order, as Python keeps it;
  \<^verbatim>\<open>d[k]\<close> raises \<^verbatim>\<open>KeyError\<close> on a missing key and \<^verbatim>\<open>d[k] = v\<close> keeps the place of a
  key that is present (\<open>AList.update\<close>). \<^verbatim>\<open>enumerate(xs)\<close> pairs every element with its
  index.
\<close>

definition dict_get :: "('k \<times> 'v) list \<Rightarrow> 'k \<Rightarrow> 'v result" where
  "dict_get d k = (case map_of d k of None \<Rightarrow> Inl KeyError | Some v \<Rightarrow> Inr v)"

definition py_enumerate :: "'a list \<Rightarrow> (int \<times> 'a) list" where
  "py_enumerate xs = zip (map int [0..<length xs]) xs"

text \<open>
  \<^verbatim>\<open>get_cols\<close>: the dictionary \<^verbatim>\<open>cols\<close> maps every column index to a list, and
  \<^verbatim>\<open>cols[col_idx].append(self.value_of(row_idx, col_idx))\<close> looks the list up before it
  reads the cell.
\<close>

definition get_cols :: "plateset \<Rightarrow> string list list result" where
  "get_cols s =
     (case fold_result (\<lambda>row_idx.
             fold_result (\<lambda>col_idx cols.
               case map_of cols col_idx of
                 None \<Rightarrow> Inl KeyError
               | Some l \<Rightarrow>
                   (case value_of s (row_idx, col_idx) of
                      Inl e \<Rightarrow> Inl e
                    | Inr v \<Rightarrow> Inr (AList.update col_idx (l @ [v]) cols)))
             (py_range (num_cols s)))
           (py_range (num_rows s)) (map (\<lambda>i. (i, [])) (py_range (num_cols s))) of
        Inl e \<Rightarrow> Inl e
      | Inr cols \<Rightarrow> map_result (dict_get cols) (py_range (num_cols s)))"

text \<open>
  A pool is a Python set, here a HOL set; \<^verbatim>\<open>pools[idx].add(value)\<close> is \<open>pool_add\<close>.
  \<^verbatim>\<open>hpools\<close> and \<^verbatim>\<open>vpools\<close> run the same two loops, the one over the rows and the other
  over the columns of the grid; every value of a line is added, whatever it is.
\<close>

definition pool_add :: "(int \<times> string set) list \<Rightarrow> int \<Rightarrow> string \<Rightarrow> (int \<times> string set) list result" where
  "pool_add pools idx v =
     (case map_of pools idx of
        None \<Rightarrow> Inl KeyError
      | Some S \<Rightarrow> Inr (AList.update idx (insert v S) pools))"

definition hpools :: "plateset \<Rightarrow> (int \<times> string set) list result" where
  "hpools s =
     fold_result (\<lambda>(row_idx, row). fold_result (\<lambda>v pools. pool_add pools row_idx v) row)
       (py_enumerate (get_rows s)) (map (\<lambda>i. (i, {})) (py_range (num_rows s)))"

definition vpools :: "plateset \<Rightarrow> (int \<times> string set) list result" where
  "vpools s =
     (case get_cols s of
        Inl e \<Rightarrow> Inl e
      | Inr cols \<Rightarrow>
          fold_result (\<lambda>(col_idx, col). fold_result (\<lambda>v pools. pool_add pools col_idx v) col)
            (py_enumerate cols) (map (\<lambda>i. (i, {})) (py_range (num_cols s))))"

subsection \<open>Random filling\<close>

text \<open>
  \<^verbatim>\<open>itertools.combinations(xs, k)\<close>: the subsequences of \<open>xs\<close> of length \<open>k\<close>, in the
  lexicographic order of their positions.
\<close>

fun combinations :: "'a list \<Rightarrow> nat \<Rightarrow> 'a list list" where
  "combinations xs 0 = [[]]"
| "combinations [] (Suc k) = []"
| "combinations (x # xs) (Suc k) = map ((#) x) (combinations xs k) @ combinations xs (Suc k)"

text \<open>
  The module \<^verbatim>\<open>random\<close> is not part of the repository. Its global generator is a state of
  some type \<open>'r\<close>, threaded through the calls, and its two operations are parameters:
  \<open>seed_state\<close> is the state that \<^verbatim>\<open>random.seed(n)\<close> sets, and \<open>randbelow r n\<close> is the
  number below \<open>n\<close> drawn in state \<open>r\<close> with the state after the draw.
  \<^verbatim>\<open>random.choice(seq)\<close> raises \<^verbatim>\<open>IndexError\<close> on an empty sequence and returns
  \<^verbatim>\<open>seq[randbelow(len(seq))]\<close> otherwise.
\<close>

definition random_choice :: "('r \<Rightarrow> nat \<Rightarrow> nat \<times> 'r) \<Rightarrow> 'a list \<Rightarrow> 'r \<Rightarrow> 'a result \<times> 'r" where
  "random_choice randbelow seq r =
     (if seq = [] then (Inl IndexError, r)
      else case randbelow r (length seq) of (i, r') \<Rightarrow> (py_index seq (int i), r'))"

definition alphabet :: string where
  "alphabet = ''ABCDEFGHIJKLMNOPQRSTUVWXYZ''"

text \<open>
  \<^verbatim>\<open>fill_randomly(seed)\<close> on the grid and the generator. The seed is an integer; the
  default \<^verbatim>\<open>False\<close> is the integer 0 in the test \<^verbatim>\<open>if seed:\<close>, which any integer but 0
  passes. \<open>elements\<close> is the local list of that name, \<open>fill_cell\<close> the body of the inner
  loop; \<^verbatim>\<open>"".join\<close> of a tuple of characters is the string of these characters.
\<close>

definition elements :: "string list" where
  "elements = combinations alphabet FILL"

definition fill_cell :: "('r \<Rightarrow> nat \<Rightarrow> nat \<times> 'r) \<Rightarrow> int \<times> int \<Rightarrow> plateset \<times> 'r \<Rightarrow> unit result \<times> (plateset \<times> 'r)" where
  "fill_cell randbelow p st =
     (case st of (s, r) \<Rightarrow>
        case random_choice randbelow elements r of
          (Inl e, r') \<Rightarrow> (Inl e, (s, r'))
        | (Inr v, r') \<Rightarrow> (case insert_well v p s of (res, s') \<Rightarrow> (res, (s', r'))))"

definition fill_randomly ::
  "(int \<Rightarrow> 'r) \<Rightarrow> ('r \<Rightarrow> nat \<Rightarrow> nat \<times> 'r) \<Rightarrow> int \<Rightarrow> plateset \<times> 'r \<Rightarrow> unit result \<times> (plateset \<times> 'r)" where
  "fill_randomly seed_state randbelow seed st =
     (case st of (s, r) \<Rightarrow>
        for_loop (py_range (num_rows s)) (\<lambda>row_idx.
          for_loop (py_range (num_cols s)) (\<lambda>col_idx. fill_cell randbelow (row_idx, col_idx)))
          (s, if seed \<noteq> 0 then seed_state seed else r))"

text \<open>
  What \<^verbatim>\<open>random\<close> promises of a draw below \<open>n\<close>, and a small generator that keeps the
  promise: its state counts the draws, an even state draws the first element and an odd
  one the last.
\<close>

definition below_bound :: "('r \<Rightarrow> nat \<Rightarrow> nat \<times> 'r) \<Rightarrow> bool" where
  "below_bound randbelow = (\<forall>r n. 0 < n \<longrightarrow> fst (randbelow r n) < n)"

definition counter_seed :: "int \<Rightarrow> nat" where
  "counter_seed n = nat \<bar>n\<bar>"

definition edge_randbelow :: "nat \<Rightarrow> nat \<Rightarrow> nat \<times> nat" where
  "edge_randbelow r n = (if even r then 0 else n - 1, Suc r)"

subsection \<open>The function \<^verbatim>\<open>solve\<close>\<close>

text \<open>
  \<^verbatim>\<open>solve(hpools, vpools, num_rows, num_cols)\<close>. The two arguments are dictionaries of sets
  that \<^verbatim>\<open>solve\<close> only iterates and tests for membership: each is an association list in
  the order of its keys, each set the list of its members in the order in which the
  iteration yields them. \<open>iteration_of d pools\<close> says that \<open>d\<close> is such a reading of the
  dictionary \<open>pools\<close>; which order a Python set yields is not fixed, so the statements
  below hold for every reading.
\<close>

type_synonym pool_dict = "(int \<times> string list) list"

definition iteration_of :: "pool_dict \<Rightarrow> (int \<times> string set) list \<Rightarrow> bool" where
  "iteration_of d pools = list_all2 (\<lambda>(i, xs) (j, S). i = j \<and> distinct xs \<and> set xs = S) d pools"

text \<open>
  The first loop of \<^verbatim>\<open>solve\<close> fills the dictionary \<^verbatim>\<open>solved_items\<close>: an item that is a key
  has the pair appended to its list, a new item is entered with the list of this pair.
\<close>

definition record_candidate ::
  "string \<Rightarrow> int \<times> int \<Rightarrow> (string \<times> (int \<times> int) list) list \<Rightarrow> (string \<times> (int \<times> int) list) list" where
  "record_candidate item p solved_items =
     (case map_of solved_items item of
        Some l \<Rightarrow> AList.update item (l @ [p]) solved_items
      | None \<Rightarrow> AList.update item [p] solved_items)"

definition solved_items_of :: "pool_dict \<Rightarrow> pool_dict \<Rightarrow> (string \<times> (int \<times> int) list) list" where
  "solved_items_of hp vp =
     fold (\<lambda>(hpool_idx, hpool_set).
       fold (\<lambda>item.
         fold (\<lambda>(vpool_idx, vpool_set) solved_items.
           if item \<in> set vpool_set then record_candidate item (hpool_idx, vpool_idx) solved_items
           else solved_items) vp) hpool_set) hp []"

text \<open>
  The second loop inserts every item whose list has one entry; \<^verbatim>\<open>insert\<close> checks the range
  and its exception ends \<^verbatim>\<open>solve\<close>.
\<close>

definition place_item :: "string \<times> (int \<times> int) list \<Rightarrow> plateset \<Rightarrow> unit result \<times> plateset" where
  "place_item entry solved_set =
     (case entry of (item, positions) \<Rightarrow>
        if length positions = 1 then
          (case py_index positions 0 of
             Inl e \<Rightarrow> (Inl e, solved_set)
           | Inr p \<Rightarrow> insert_well item p solved_set)
        else (Inr (), solved_set))"

definition solve :: "pool_dict \<Rightarrow> pool_dict \<Rightarrow> int \<Rightarrow> int \<Rightarrow> plateset result" where
  "solve hp vp rows cols =
     (case for_loop (solved_items_of hp vp) place_item (PlateSet rows cols) of
        (Inl e, _) \<Rightarrow> Inl e
      | (Inr _, solved_set) \<Rightarrow> Inr solved_set)"

text \<open>
  The candidate list of an item as the specification words it: all pairs \<open>(r, c)\<close> with
  the item present in the row pool \<open>r\<close> and in the column pool \<open>c\<close>, rows first.
\<close>

definition pools_with :: "string \<Rightarrow> pool_dict \<Rightarrow> int list" where
  "pools_with item d = map fst (filter (\<lambda>(i, xs). item \<in> set xs) d)"

definition candidates :: "pool_dict \<Rightarrow> pool_dict \<Rightarrow> string \<Rightarrow> (int \<times> int) list" where
  "candidates hp vp item = List.product (pools_with item hp) (pools_with item vp)"

text \<open>
  A dictionary of sets has every key once and every member of a set once; its indices are
  within a dimension \<open>n\<close> when they are indices of \<^verbatim>\<open>range(n)\<close>.
\<close>

definition dict_of_sets :: "pool_dict \<Rightarrow> bool" where
  "dict_of_sets d = (distinct (map fst d) \<and> (\<forall>(i, xs) \<in> set d. distinct xs))"

definition indices_within :: "pool_dict \<Rightarrow> int \<Rightarrow> bool" where
  "indices_within d n = (\<forall>(i, xs) \<in> set d. 0 \<le> i \<and> i < n)"

subsection \<open>Plate numbers and well labels\<close>

text \<open>
  \<^verbatim>\<open>_indices_to_well(row, col, start_at)\<close>. A key missing from \<^verbatim>\<open>offset_to_num\<close> raises
  \<^verbatim>\<open>KeyError\<close>; \<^verbatim>\<open>"ABCDEFGH"[row]\<close> is an indexing like any other.
\<close>

definition offset_to_num :: "int \<times> int \<Rightarrow> int option" where
  "offset_to_num = map_of [((0, 0), 0), ((0, 1), 1), ((1, 0), 2), ((1, 1), 3)]"

definition indices_to_well :: "int \<times> int \<Rightarrow> int \<Rightarrow> string result" where
  "indices_to_well p start_at =
     (case p of (row, col) \<Rightarrow>
        if row > 16 \<or> col > 24 then Inl ValueError
        else
          let plate_row_offset = row div 8;
              plate_col_offset = col div 12
          in case offset_to_num (plate_row_offset, plate_col_offset) of
               None \<Rightarrow> Inl KeyError
             | Some k \<Rightarrow>
                 let plate_number = start_at + k;
                     row' = row mod 8;
                     col' = col mod 12
                 in case py_index ''ABCDEFGH'' row' of
                      Inl e \<Rightarrow> Inl e
                    | Inr letter \<Rightarrow>
                        Inr (''Plate '' @ str_int plate_number @ '' '' @ letter # str_int (col' + 1)))"

subsection \<open>The class invariant\<close>

text \<open>
  The invariant of a grid that the constructor establishes and every method keeps:
  \<open>num_rows\<close> rows of \<open>num_cols\<close> cells each, and \<open>num_wells\<close> their product.
\<close>

definition well_formed :: "plateset \<Rightarrow> bool" where
  "well_formed s =
     (length (grid s) = nat (num_rows s) \<and>
      (\<forall>r \<in> set (grid s). length r = nat (num_cols s)) \<and>
      num_wells s = num_cols s * num_rows s)"


section \<open>Notions of the proofs\<close>

text \<open>
  A dictionary whose keys are the list \<open>ks\<close>, in this
  order, is the table of a function. The dictionary \<^verbatim>\<open>solved_items\<close> is read as the
  function from an item to its list, the empty list for an item that is no key.
  \<open>copied other s D s'\<close> holds of a grid \<open>s'\<close> that has the shape of \<open>s\<close> and the cells of
  \<open>other\<close> on \<open>D\<close>. \<open>filled_alike nr nc D\<close> holds of two states with the same generator
  state and two well-formed grids of \<open>nr\<close> rows and \<open>nc\<close> columns that agree on the cells of
  \<open>D\<close>, each of which holds one of \<open>elements\<close>.
\<close>

definition tabulate :: "'k list \<Rightarrow> ('k \<Rightarrow> 'v) \<Rightarrow> ('k \<times> 'v) list" where
  "tabulate ks f = map (\<lambda>i. (i, f i)) ks"

definition cand_of :: "(string \<times> (int \<times> int) list) list \<Rightarrow> string \<Rightarrow> (int \<times> int) list" where
  "cand_of al x = (case map_of al x of None \<Rightarrow> [] | Some l \<Rightarrow> l)"

definition copied :: "plateset \<Rightarrow> plateset \<Rightarrow> (nat \<times> nat) set \<Rightarrow> plateset \<Rightarrow> bool" where
  "copied other s D s' =
     (well_formed s' \<and> num_rows s' = num_rows s \<and> num_cols s' = num_cols s \<and>
      num_wells s' = num_wells s \<and>
      (\<forall>(i, j) \<in> D. grid s' ! i ! j = grid other ! i ! j))"

definition filled_alike :: "int \<Rightarrow> int \<Rightarrow> (nat \<times> nat) set \<Rightarrow> plateset \<times> 'r \<Rightarrow> plateset \<times> 'r \<Rightarrow> bool" where
  "filled_alike nr nc D st1 st2 =
     (snd st1 = snd st2 \<and> well_formed (fst st1) \<and> well_formed (fst st2) \<and>
      num_rows (fst st1) = nr \<and> num_rows (fst st2) = nr \<and>
      num_cols (fst st1) = nc \<and> num_cols (fst st2) = nc \<and>
      (\<forall>(i, j) \<in> D. grid (fst st1) ! i ! j = grid (fst st2) ! i ! j \<and>
                     grid (fst st1) ! i ! j \<in> set elements))"


section \<open>Basic facts\<close>

lemma set_py_range: "set (py_range n) = {i. 0 \<le> i \<and> i < n}"
proof -
  have "\<And>i. 0 \<le> i \<Longrightarrow> i < n \<Longrightarrow> i \<in> int ` {0..<nat n}"
  proof -
    fix i :: int
    assume "0 \<le> i" "i < n"
    then have "nat i \<in> {0..<nat n}" and "int (nat i) = i" by auto
    then show "i \<in> int ` {0..<nat n}" by (metis imageI)
  qed
  then show ?thesis by (auto simp: py_range_def)
qed

lemma length_py_range: "length (py_range n) = nat n"
  by (simp add: py_range_def)

lemma well_formed_PlateSet: "well_formed (PlateSet rows cols)"
  by (simp add: well_formed_def PlateSet_def length_py_range)

lemma py_index_nonneg:
  "0 \<le> i \<Longrightarrow> py_index xs i = (if i < int (length xs) then Inr (xs ! nat i) else Inl IndexError)"
  by (simp add: py_index_def list_position_def)

lemma py_store_nonneg:
  "0 \<le> i \<Longrightarrow> py_store xs i v = (if i < int (length xs) then Inr (xs[nat i := v]) else Inl IndexError)"
  by (simp add: py_store_def list_position_def)

lemma value_of_in_grid:
  assumes "well_formed s" "0 \<le> row" "row < num_rows s" "0 \<le> col" "col < num_cols s"
  shows "value_of s (row, col) = Inr (grid s ! nat row ! nat col)"
proof -
  from assms have r: "nat row < length (grid s)"
    by (simp add: well_formed_def)
  then have "grid s ! nat row \<in> set (grid s)" by simp
  with assms have "length (grid s ! nat row) = nat (num_cols s)"
    by (simp add: well_formed_def)
  with assms r show ?thesis
    by (simp add: value_of_def in_range_def py_index_nonneg)
qed

lemma store_cell_in_grid:
  assumes "well_formed s" "0 \<le> row" "row < num_rows s" "0 \<le> col" "col < num_cols s"
  shows "store_cell v (row, col) s =
           (Inr (), s\<lparr>grid := (grid s)[nat row := (grid s ! nat row)[nat col := v]]\<rparr>)"
proof -
  from assms have r: "nat row < length (grid s)"
    by (simp add: well_formed_def)
  then have "grid s ! nat row \<in> set (grid s)" by simp
  with assms have "length (grid s ! nat row) = nat (num_cols s)"
    by (simp add: well_formed_def)
  with assms r show ?thesis
    by (simp add: store_cell_def py_index_nonneg py_store_nonneg)
qed

lemma insert_well_in_grid:
  assumes "well_formed s" "0 \<le> row" "row < num_rows s" "0 \<le> col" "col < num_cols s"
  shows "insert_well v (row, col) s =
           (Inr (), s\<lparr>grid := (grid s)[nat row := (grid s ! nat row)[nat col := v]]\<rparr>)"
  using assms by (simp add: insert_well_def in_range_def store_cell_in_grid)

lemma remove_well_in_grid:
  assumes "well_formed s" "0 \<le> row" "row < num_rows s" "0 \<le> col" "col < num_cols s"
  shows "remove_well (row, col) s =
           (Inr (), s\<lparr>grid := (grid s)[nat row := (grid s ! nat row)[nat col := null_value]]\<rparr>)"
  using assms by (simp add: remove_well_def in_range_def store_cell_in_grid)

lemma well_formed_update:
  assumes "well_formed s"
  shows "well_formed (s\<lparr>grid := (grid s)[i := (grid s ! i)[j := v]]\<rparr>)"
proof -
  have "length r = nat (num_cols s)"
    if "r \<in> set ((grid s)[i := (grid s ! i)[j := v]])" for r
  proof (cases "i < length (grid s)")
    case True
    from that have "r = (grid s ! i)[j := v] \<or> r \<in> set (grid s)"
      using set_update_subset_insert by fastforce
    moreover have "grid s ! i \<in> set (grid s)" using True by simp
    ultimately show ?thesis using assms by (auto simp: well_formed_def)
  next
    case False
    then have "(grid s)[i := (grid s ! i)[j := v]] = grid s"
      by (simp add: list_update_beyond)
    with that assms show ?thesis by (simp add: well_formed_def)
  qed
  with assms show ?thesis by (simp add: well_formed_def)
qed

lemma row_length:
  "well_formed s \<Longrightarrow> i < nat (num_rows s) \<Longrightarrow> length (grid s ! i) = nat (num_cols s)"
  by (simp add: well_formed_def)

lemma cell_in_grid:
  assumes "well_formed s" "i < nat (num_rows s)" "j < nat (num_cols s)"
  shows "grid s ! i \<in> set (grid s)" "grid s ! i ! j \<in> set (grid s ! i)"
  using assms by (simp_all add: well_formed_def)

lemma nth_nth_update:
  "i < length xs \<Longrightarrow> j < length (xs ! i) \<Longrightarrow>
   (xs[i := (xs ! i)[j := v]]) ! i' ! j' = (if i' = i \<and> j' = j then v else xs ! i' ! j')"
  by (cases "i' = i") (auto simp: nth_list_update)

lemma PlateSet_dims:
  "num_rows (PlateSet rows cols) = rows" "num_cols (PlateSet rows cols) = cols"
  "num_wells (PlateSet rows cols) = cols * rows"
  by (simp_all add: PlateSet_def)

lemma PlateSet_cell:
  "i < nat rows \<Longrightarrow> j < nat cols \<Longrightarrow> grid (PlateSet rows cols) ! i ! j = null_value"
  by (simp add: PlateSet_def py_range_def)

lemma distinct_py_range: "distinct (py_range n)"
  by (simp add: py_range_def distinct_map)

lemma nat_set_py_range: "nat ` set (py_range n) = {0..<nat n}"
  by (auto simp: py_range_def image_image)

lemma fold_result_const:
  "(\<And>x a. x \<in> set xs \<Longrightarrow> f x a = Inr a) \<Longrightarrow> fold_result f xs a = Inr a"
  by (induction xs) auto

lemma for_loop_prefix_rel:
  assumes "R [] s t"
    and "\<And>ys x zs s t. xs = ys @ x # zs \<Longrightarrow> R ys s t \<Longrightarrow>
           \<exists>s' t'. body x s = (Inr (), s') \<and> body' x t = (Inr (), t') \<and> R (ys @ [x]) s' t'"
  shows "\<exists>s' t'. for_loop xs body s = (Inr (), s') \<and> for_loop xs body' t = (Inr (), t') \<and> R xs s' t'"
  using assms
proof (induction xs arbitrary: R s t)
  case Nil
  then show ?case by simp
next
  case (Cons x xs)
  from Cons.prems(2) [of "[]" x xs s t] Cons.prems(1)
  obtain s1 t1 where 1: "body x s = (Inr (), s1)" "body' x t = (Inr (), t1)" "R [x] s1 t1"
    by auto
  have "\<exists>s' t'. for_loop xs body s1 = (Inr (), s') \<and> for_loop xs body' t1 = (Inr (), t') \<and>
          R (x # xs) s' t'"
  proof (rule Cons.IH [of "\<lambda>ys. R (x # ys)" s1 t1])
    show "R [x] s1 t1" by (rule 1)
  next
    fix ys y zs s t
    assume "xs = ys @ y # zs" "R (x # ys) s t"
    then show "\<exists>s' t'. body y s = (Inr (), s') \<and> body' y t = (Inr (), t') \<and> R (x # ys @ [y]) s' t'"
      using Cons.prems(2) [of "x # ys" y zs s t] by simp
  qed
  with 1 show ?case by simp
qed

lemma for_loop_prefix_inv:
  assumes "I [] s"
    and "\<And>ys x zs s. xs = ys @ x # zs \<Longrightarrow> I ys s \<Longrightarrow>
           \<exists>s'. body x s = (Inr (), s') \<and> I (ys @ [x]) s'"
  shows "\<exists>s'. for_loop xs body s = (Inr (), s') \<and> I xs s'"
proof -
  have "\<exists>s' t'. for_loop xs body s = (Inr (), s') \<and> for_loop xs body s = (Inr (), t') \<and>
          (I xs s' \<and> t' = s')"
  proof (rule for_loop_prefix_rel [where R = "\<lambda>ys s t. I ys s \<and> t = s"])
    show "I [] s \<and> s = s" using assms(1) by simp
  next
    fix ys x zs s t
    assume "xs = ys @ x # zs" "I ys s \<and> t = s"
    with assms(2) [of ys x zs s]
    show "\<exists>s' t'. body x s = (Inr (), s') \<and> body x t = (Inr (), t') \<and> I (ys @ [x]) s' \<and> t' = s'"
      by auto
  qed
  then show ?thesis by blast
qed


section \<open>Bounds-checked access\<close>

text \<open>
  Claim C7. On a grid that satisfies the class invariant, a coordinate with
  \<open>row < 0\<close>, \<open>row \<ge> num_rows\<close>, \<open>col < 0\<close> or \<open>col \<ge> num_cols\<close> makes each of
  \<^verbatim>\<open>value_of\<close>, \<^verbatim>\<open>insert\<close> and \<^verbatim>\<open>remove\<close> raise \<^verbatim>\<open>ValueError\<close> with the grid
  left as it was, and at every other coordinate none of the three raises.
\<close>

theorem access_range_checked:
  assumes "well_formed s"
  shows "(row < 0 \<or> row \<ge> num_rows s \<or> col < 0 \<or> col \<ge> num_cols s \<longrightarrow>
            value_of s (row, col) = Inl ValueError \<and>
            insert_well v (row, col) s = (Inl ValueError, s) \<and>
            remove_well (row, col) s = (Inl ValueError, s)) \<and>
         (\<not> (row < 0 \<or> row \<ge> num_rows s \<or> col < 0 \<or> col \<ge> num_cols s) \<longrightarrow>
            (\<exists>x. value_of s (row, col) = Inr x) \<and>
            (\<exists>s'. insert_well v (row, col) s = (Inr (), s')) \<and>
            (\<exists>s'. remove_well (row, col) s = (Inr (), s')))"
proof (intro conjI impI)
  assume out: "row < 0 \<or> row \<ge> num_rows s \<or> col < 0 \<or> col \<ge> num_cols s"
  then have "\<not> (in_range row (num_rows s) \<and> in_range col (num_cols s))"
    by (auto simp: in_range_def)
  then show "value_of s (row, col) = Inl ValueError"
    and "insert_well v (row, col) s = (Inl ValueError, s)"
    and "remove_well (row, col) s = (Inl ValueError, s)"
    by (simp_all add: value_of_def insert_well_def remove_well_def)
next
  assume "\<not> (row < 0 \<or> row \<ge> num_rows s \<or> col < 0 \<or> col \<ge> num_cols s)"
  then have inside: "0 \<le> row" "row < num_rows s" "0 \<le> col" "col < num_cols s"
    by auto
  show "\<exists>x. value_of s (row, col) = Inr x"
    using value_of_in_grid [OF assms inside] by blast
  show "\<exists>s'. insert_well v (row, col) s = (Inr (), s')"
    using insert_well_in_grid [OF assms inside] by blast
  show "\<exists>s'. remove_well (row, col) s = (Inr (), s')"
    using remove_well_in_grid [OF assms inside] by blast
qed

theorem access_range_checked_witness:
  "well_formed (PlateSet 2 3) \<and>
   (- 1 < (0::int) \<or> num_rows (PlateSet 2 3) \<le> - 1 \<or> (1::int) < 0 \<or> num_cols (PlateSet 2 3) \<le> 1) \<and>
   value_of (PlateSet 2 3) (- 1, 1) = Inl ValueError \<and>
   insert_well ''TEST'' (- 1, 1) (PlateSet 2 3) = (Inl ValueError, PlateSet 2 3) \<and>
   remove_well (- 1, 1) (PlateSet 2 3) = (Inl ValueError, PlateSet 2 3) \<and>
   \<not> ((1::int) < 0 \<or> num_rows (PlateSet 2 3) \<le> 1 \<or> (2::int) < 0 \<or> num_cols (PlateSet 2 3) \<le> 2) \<and>
   (\<exists>x. value_of (PlateSet 2 3) (1, 2) = Inr x) \<and>
   (\<exists>s'. insert_well ''TEST'' (1, 2) (PlateSet 2 3) = (Inr (), s')) \<and>
   (\<exists>s'. remove_well (1, 2) (PlateSet 2 3) = (Inr (), s'))"
proof -
  have wf: "well_formed (PlateSet 2 3)"
    by (rule well_formed_PlateSet)
  have dims: "num_rows (PlateSet 2 3) = 2" "num_cols (PlateSet 2 3) = 3"
    by (simp_all add: PlateSet_def)
  show ?thesis
    using wf
      access_range_checked [OF wf, where row = "- 1" and col = 1 and v = "''TEST''"]
      access_range_checked [OF wf, where row = 1 and col = 2 and v = "''TEST''"]
    by (simp add: dims)
qed


section \<open>Comparing and copying grids\<close>

lemma is_equal_cols_in_grid:
  assumes "well_formed s" "well_formed t" "0 \<le> r" "r < num_rows s" "r < num_rows t"
    and "\<forall>j \<in> set js. 0 \<le> j \<and> j < num_cols s \<and> j < num_cols t"
  shows "is_equal_cols s t r js =
           Inr (\<forall>j \<in> set js. grid s ! nat r ! nat j = grid t ! nat r ! nat j)"
  using assms(6)
proof (induction js)
  case Nil
  then show ?case by simp
next
  case (Cons j js)
  then have "0 \<le> j" "j < num_cols s" "j < num_cols t" by simp_all
  with assms(1-5) have "value_of s (r, j) = Inr (grid s ! nat r ! nat j)"
    "value_of t (r, j) = Inr (grid t ! nat r ! nat j)"
    by (simp_all add: value_of_in_grid)
  with Cons show ?case by auto
qed

lemma is_equal_rows_in_grid:
  assumes "well_formed s" "well_formed t" "num_cols s = num_cols t"
    and "\<forall>r \<in> set rs. 0 \<le> r \<and> r < num_rows s \<and> r < num_rows t"
  shows "is_equal_rows s t rs =
           Inr (\<forall>r \<in> set rs. \<forall>j \<in> set (py_range (num_cols s)).
                  grid s ! nat r ! nat j = grid t ! nat r ! nat j)"
  using assms(4)
proof (induction rs)
  case Nil
  then show ?case by simp
next
  case (Cons r rs)
  then have r: "0 \<le> r" "r < num_rows s" "r < num_rows t" by simp_all
  have "\<forall>j \<in> set (py_range (num_cols s)). 0 \<le> j \<and> j < num_cols s \<and> j < num_cols t"
    using assms(3) by (simp add: set_py_range)
  from is_equal_cols_in_grid [OF assms(1,2) r this] Cons show ?case
    by (auto split: bool.splits)
qed

lemma is_equal_to_same_dimensions:
  assumes wf: "well_formed s" "well_formed t"
    and dims: "num_rows s = num_rows t" "num_cols s = num_cols t"
  shows "is_equal_to s t = Inr (grid s = grid t)"
proof -
  have "\<forall>r \<in> set (py_range (num_rows s)). 0 \<le> r \<and> r < num_rows s \<and> r < num_rows t"
    using dims by (simp add: set_py_range)
  from is_equal_rows_in_grid [OF wf dims(2) this]
  have run: "is_equal_to s t = Inr (\<forall>r \<in> set (py_range (num_rows s)).
      \<forall>j \<in> set (py_range (num_cols s)). grid s ! nat r ! nat j = grid t ! nat r ! nat j)"
    using dims by (simp add: is_equal_to_def)
  have "(\<forall>r \<in> set (py_range (num_rows s)). \<forall>j \<in> set (py_range (num_cols s)).
           grid s ! nat r ! nat j = grid t ! nat r ! nat j) \<longleftrightarrow> grid s = grid t"
  proof
    assume "grid s = grid t"
    then show "\<forall>r \<in> set (py_range (num_rows s)). \<forall>j \<in> set (py_range (num_cols s)).
           grid s ! nat r ! nat j = grid t ! nat r ! nat j"
      by simp
  next
    assume cells: "\<forall>r \<in> set (py_range (num_rows s)). \<forall>j \<in> set (py_range (num_cols s)).
           grid s ! nat r ! nat j = grid t ! nat r ! nat j"
    have same: "grid s ! i ! j = grid t ! i ! j" if "i < nat (num_rows s)" "j < nat (num_cols s)" for i j
    proof -
      from that have "int i \<in> set (py_range (num_rows s))" "int j \<in> set (py_range (num_cols s))"
        by (simp_all add: set_py_range)
      with cells have "grid s ! nat (int i) ! nat (int j) = grid t ! nat (int i) ! nat (int j)"
        by blast
      then show ?thesis by simp
    qed
    show "grid s = grid t"
    proof (rule nth_equalityI)
      show "length (grid s) = length (grid t)"
        using wf dims by (simp add: well_formed_def)
    next
      fix i assume "i < length (grid s)"
      with wf have i: "i < nat (num_rows s)" by (simp add: well_formed_def)
      show "grid s ! i = grid t ! i"
      proof (rule nth_equalityI)
        show "length (grid s ! i) = length (grid t ! i)"
          using wf dims i by (simp add: row_length)
      next
        fix j assume "j < length (grid s ! i)"
        with wf i have "j < nat (num_cols s)" by (simp add: row_length)
        with i show "grid s ! i ! j = grid t ! i ! j" by (rule same)
      qed
    qed
  qed
  with run show ?thesis by simp
qed

text \<open>
  Claim C4 (the code departs from it). A fresh 2 x 3 grid compared with a fresh 2 x 4 grid:
  the numbers of rows agree, so the guard does not return \<^verbatim>\<open>False\<close>, every cell of the
  first grid equals the cell of the second at the same coordinate, and the result is
  \<^verbatim>\<open>True\<close> although the dimensions differ.
\<close>

theorem is_equal_to_unequal_dimensions:
  "num_cols (PlateSet 2 3) \<noteq> num_cols (PlateSet 2 4) \<and>
   is_equal_to (PlateSet 2 3) (PlateSet 2 4) = Inr True"
  by code_simp

lemma copy_cell_step:
  assumes c: "copied other s D s'" and wfo: "well_formed other"
    and dims: "num_rows other = num_rows s" "num_cols other = num_cols s"
    and rc: "0 \<le> row" "row < num_rows s" "0 \<le> col" "col < num_cols s"
  shows "\<exists>s''. (case value_of other (row, col) of
                  Inl e \<Rightarrow> (Inl e, s')
                | Inr v \<Rightarrow> insert_well v (row, col) s') = (Inr (), s'') \<and>
               copied other s (insert (nat row, nat col) D) s''"
proof -
  let ?v = "grid other ! nat row ! nat col"
  let ?g = "(grid s')[nat row := (grid s' ! nat row)[nat col := ?v]]"
  from c have wf: "well_formed s'" and d: "num_rows s' = num_rows s" "num_cols s' = num_cols s"
    "num_wells s' = num_wells s"
    and cells: "\<And>i j. (i, j) \<in> D \<Longrightarrow> grid s' ! i ! j = grid other ! i ! j"
    by (auto simp: copied_def)
  have v: "value_of other (row, col) = Inr ?v"
    using wfo dims rc by (simp add: value_of_in_grid)
  have ins: "insert_well ?v (row, col) s' = (Inr (), s'\<lparr>grid := ?g\<rparr>)"
    using wf d rc by (simp add: insert_well_in_grid)
  have len: "nat row < length (grid s')" "nat col < length (grid s' ! nat row)"
    using wf d rc by (simp_all add: well_formed_def)
  have cell: "?g ! i ! j = (if i = nat row \<and> j = nat col then ?v else grid s' ! i ! j)" for i j
    using len by (simp add: nth_nth_update)
  have "copied other s (insert (nat row, nat col) D) (s'\<lparr>grid := ?g\<rparr>)"
    unfolding copied_def using wf d cells by (auto simp: well_formed_update cell)
  with v ins show ?thesis by simp
qed

lemma fill_by_other_same_dimensions:
  assumes wf: "well_formed s" "well_formed other"
    and dims: "num_rows other = num_rows s" "num_cols other = num_cols s"
  shows "fill_by_other other s = (Inr (), s\<lparr>grid := grid other\<rparr>)"
proof -
  let ?cols = "py_range (num_cols s)" and ?rows = "py_range (num_rows s)"
  let ?cell = "\<lambda>row_idx col_idx s'.
            case value_of other (row_idx, col_idx) of
              Inl e \<Rightarrow> (Inl e, s')
            | Inr v \<Rightarrow> insert_well v (row_idx, col_idx) s'"
  have row: "\<exists>s''. for_loop ?cols (?cell r) s' = (Inr (), s'') \<and>
               copied other s (D \<union> {nat r} \<times> nat ` set ?cols) s''"
    if c: "copied other s D s'" and r: "0 \<le> r" "r < num_rows s" for D s' r
  proof (rule for_loop_prefix_inv [where I = "\<lambda>ys. copied other s (D \<union> {nat r} \<times> nat ` set ys)"])
    show "copied other s (D \<union> {nat r} \<times> nat ` set []) s'" using c by simp
  next
    fix ys x zs s'
    assume xs: "?cols = ys @ x # zs" and I: "copied other s (D \<union> {nat r} \<times> nat ` set ys) s'"
    from xs have "x \<in> set ?cols" by simp
    then have x: "0 \<le> x" "x < num_cols s" by (simp_all add: set_py_range)
    have eq: "D \<union> {nat r} \<times> nat ` set (ys @ [x]) =
              insert (nat r, nat x) (D \<union> {nat r} \<times> nat ` set ys)"
      by auto
    show "\<exists>s''. ?cell r x s' = (Inr (), s'') \<and>
                 copied other s (D \<union> {nat r} \<times> nat ` set (ys @ [x])) s''"
      unfolding eq by (rule copy_cell_step [OF I wf(2) dims r x])
  qed
  have "\<exists>s'. for_loop ?rows (\<lambda>row_idx. for_loop ?cols (?cell row_idx)) s = (Inr (), s') \<and>
          copied other s (nat ` set ?rows \<times> nat ` set ?cols) s'"
  proof (rule for_loop_prefix_inv [where I = "\<lambda>ys. copied other s (nat ` set ys \<times> nat ` set ?cols)"])
    show "copied other s (nat ` set [] \<times> nat ` set ?cols) s"
      using wf by (simp add: copied_def)
  next
    fix ys x zs s'
    assume xs: "?rows = ys @ x # zs" and I: "copied other s (nat ` set ys \<times> nat ` set ?cols) s'"
    from xs have "x \<in> set ?rows" by simp
    then have x: "0 \<le> x" "x < num_rows s" by (simp_all add: set_py_range)
    have eq: "nat ` set (ys @ [x]) \<times> nat ` set ?cols =
              nat ` set ys \<times> nat ` set ?cols \<union> {nat x} \<times> nat ` set ?cols"
      by auto
    show "\<exists>s''. for_loop ?cols (?cell x) s' = (Inr (), s'') \<and>
                 copied other s (nat ` set (ys @ [x]) \<times> nat ` set ?cols) s''"
      unfolding eq by (rule row [OF I x])
  qed
  then obtain s' where run: "for_loop ?rows (\<lambda>row_idx. for_loop ?cols (?cell row_idx)) s = (Inr (), s')"
    and c: "copied other s (nat ` set ?rows \<times> nat ` set ?cols) s'"
    by blast
  from c have wf': "well_formed s'" and d: "num_rows s' = num_rows s" "num_cols s' = num_cols s"
    "num_wells s' = num_wells s"
    by (simp_all add: copied_def)
  have same: "grid s' ! i ! j = grid other ! i ! j" if "i < nat (num_rows s)" "j < nat (num_cols s)" for i j
  proof -
    from that have "(i, j) \<in> nat ` set ?rows \<times> nat ` set ?cols"
      by (simp add: nat_set_py_range)
    with c show ?thesis by (auto simp: copied_def)
  qed
  have "grid s' = grid other"
  proof (rule nth_equalityI)
    show "length (grid s') = length (grid other)"
      using wf wf' d dims by (simp add: well_formed_def)
  next
    fix i assume "i < length (grid s')"
    with wf' d have i: "i < nat (num_rows s)" by (simp add: well_formed_def)
    show "grid s' ! i = grid other ! i"
    proof (rule nth_equalityI)
      show "length (grid s' ! i) = length (grid other ! i)"
        using wf wf' d dims i by (simp add: row_length)
    next
      fix j assume "j < length (grid s' ! i)"
      with wf' d i have "j < nat (num_cols s)" by (simp add: row_length)
      with i show "grid s' ! i ! j = grid other ! i ! j" by (rule same)
    qed
  qed
  with d have "s' = s\<lparr>grid := grid other\<rparr>"
    by (intro plateset.equality) simp_all
  with run dims show ?thesis
    by (simp add: fill_by_other_def)
qed

text \<open>
  Claim C6 (the code departs from it). A fresh 3 x 2 grid filled from a 2 x 2 grid that holds
  \<^verbatim>\<open>"A"\<close> at (0, 0): the guard compares the columns of the one with the rows of the other,
  both 2, so nothing is raised, and the first two rows are overwritten.
\<close>

theorem fill_by_other_unequal_dimensions:
  "num_rows (PlateSet 3 2) \<noteq> num_rows (snd (insert_well ''A'' (0, 0) (PlateSet 2 2))) \<and>
   fill_by_other (snd (insert_well ''A'' (0, 0) (PlateSet 2 2))) (PlateSet 3 2) =
     (Inr (),
      \<lparr>num_rows = 3, num_cols = 2, num_wells = 6,
       grid = [[''A'', ''xxxxx''], [''xxxxx'', ''xxxxx''], [''xxxxx'', ''xxxxx'']]\<rparr>) \<and>
   grid (PlateSet 3 2) = [[''xxxxx'', ''xxxxx''], [''xxxxx'', ''xxxxx''], [''xxxxx'', ''xxxxx'']]"
  by code_simp


section \<open>Plate numbers and well labels\<close>

lemma indices_to_well_scenarios:
  "indices_to_well (0, 0) 1 = Inr ''Plate 1 A1''"
  "indices_to_well (0, 0) 2 = Inr ''Plate 2 A1''"
  "indices_to_well (0, 11) 1 = Inr ''Plate 1 A12''"
  "indices_to_well (8, 0) 1 = Inr ''Plate 3 A1''"
  "indices_to_well (0, 12) 1 = Inr ''Plate 2 A1''"
  "indices_to_well (0, 12) 3 = Inr ''Plate 4 A1''"
  "indices_to_well (15, 23) 1 = Inr ''Plate 4 H12''"
  by code_simp+

lemma indices_to_well_in_shape:
  assumes "0 \<le> row" "row < 16" "0 \<le> col" "col < 24"
  shows "indices_to_well (row, col) start_at =
           Inr (''Plate '' @ str_int (start_at + (2 * (row div 8) + col div 12)) @ '' '' @
                ''ABCDEFGH'' ! nat (row mod 8) # str_int (col mod 12 + 1))"
proof -
  from assms have r: "row div 8 = 0 \<or> row div 8 = 1" by presburger
  from assms have c: "col div 12 = 0 \<or> col div 12 = 1" by presburger
  have m: "0 \<le> row mod 8" "row mod 8 < 8" by simp_all
  from r c have "offset_to_num (row div 8, col div 12) = Some (2 * (row div 8) + col div 12)"
    by (auto simp: offset_to_num_def)
  with assms m show ?thesis
    by (simp add: indices_to_well_def py_index_nonneg)
qed

text \<open>
  Claim C8 (the code departs from it). Row 16 is outside the 16 x 24 shape, the guard
  \<^verbatim>\<open>row > 16 or col > 24\<close> lets it through, and the lookup of the plate offset (2, 0)
  raises \<^verbatim>\<open>KeyError\<close>; so does column 24. A \<^verbatim>\<open>ValueError\<close> comes from row 17 on.
\<close>

theorem indices_to_well_row_16:
  "indices_to_well (16, 0) 1 = Inl KeyError \<and>
   indices_to_well (0, 24) 1 = Inl KeyError \<and>
   indices_to_well (17, 0) 1 = Inl ValueError"
  by code_simp


section \<open>Construction\<close>

lemma map_result_const:
  "map_result (\<lambda>_. Inr y) xs = Inr (map (\<lambda>_. y) xs)"
  by (induction xs) auto

lemma init_integers:
  "init (PInt rows) (PInt cols) =
     Inr \<lparr>dyn_num_rows = PInt (num_rows (PlateSet rows cols)),
          dyn_num_cols = PInt (num_cols (PlateSet rows cols)),
          dyn_num_wells = PInt (num_wells (PlateSet rows cols)),
          dyn_grid = grid (PlateSet rows cols)\<rparr>"
  by (simp add: init_def is_int_def range_of_def PlateSet_def map_result_const)

lemma init_scenarios:
  "init (PStr ''a'') (PStr ''b'') = Inl TypeError"
  "init (PFloat (12 / 10)) (PFloat (32 / 10)) = Inl TypeError"
  "init (PFloat 1) (PFloat 2) =
     Inr \<lparr>dyn_num_rows = PInt 1, dyn_num_cols = PInt 2, dyn_num_wells = PInt 2,
          dyn_grid = [[''xxxxx'', ''xxxxx'']]\<rparr>"
  "init (PInt 2) (PStr ''a'') = Inl TypeError"
  "init (PInt 2) (PFloat (15 / 10)) = Inl TypeError"
  by code_simp+

text \<open>
  Claim C5 (the code departs from it). The guard of \<^verbatim>\<open>__init__\<close> raises only when neither
  argument is an integer. With 0 rows and the string \<^verbatim>\<open>"a"\<close> for the columns nothing is
  raised at all: \<^verbatim>\<open>"a" * 0\<close> is the empty string and the comprehension over \<^verbatim>\<open>range(0)\<close>
  never reaches \<^verbatim>\<open>range("a")\<close>. With the float 1.0 and the integer 2 the float is not
  converted, and \<^verbatim>\<open>range(1.0)\<close> raises \<^verbatim>\<open>TypeError\<close>.
\<close>

theorem init_mixed_arguments:
  "init (PInt 0) (PStr ''a'') =
     Inr \<lparr>dyn_num_rows = PInt 0, dyn_num_cols = PStr ''a'', dyn_num_wells = PStr [],
          dyn_grid = []\<rparr> \<and>
   init (PFloat 1) (PInt 2) = Inl TypeError"
  by (simp add: init_def is_int_def range_of_def py_range_def)


section \<open>Row pools and column pools\<close>

text \<open>
  The loops that fill \<^verbatim>\<open>cols\<close>, \<^verbatim>\<open>hpools\<close> and \<^verbatim>\<open>vpools\<close> are followed on the function
  that the dictionary tabulates.
\<close>

lemma map_of_tabulate: "k \<in> set ks \<Longrightarrow> map_of (tabulate ks f) k = Some (f k)"
  by (induction ks) (auto simp: tabulate_def)

lemma update_tabulate:
  "distinct ks \<Longrightarrow> k \<in> set ks \<Longrightarrow> AList.update k v (tabulate ks f) = tabulate ks (f(k := v))"
  by (induction ks) (auto simp: tabulate_def)

lemma fold_result_tabulate:
  assumes "\<And>x f. x \<in> set xs \<Longrightarrow> body x (tabulate ks f) = Inr (tabulate ks (F x f))"
  shows "fold_result body xs (tabulate ks f) = Inr (tabulate ks (fold F xs f))"
  using assms by (induction xs arbitrary: f) auto

lemma fold_insert_at:
  "fold (\<lambda>v f. f(k := insert v (f k))) xs f = f(k := f k \<union> set xs)"
  by (induction xs arbitrary: f) (auto simp: fun_eq_iff)

lemma pool_loop:
  assumes "distinct ks" "k \<in> set ks"
  shows "fold_result (\<lambda>v pools. pool_add pools k v) xs (tabulate ks f) =
           Inr (tabulate ks (f(k := f k \<union> set xs)))"
proof -
  have "fold_result (\<lambda>v pools. pool_add pools k v) xs (tabulate ks f) =
          Inr (tabulate ks (fold (\<lambda>v f. f(k := insert v (f k))) xs f))"
    by (rule fold_result_tabulate) (simp add: pool_add_def map_of_tabulate update_tabulate assms)
  then show ?thesis by (simp add: fold_insert_at)
qed

lemma fold_union_at:
  "fold (\<lambda>(k, xs) f. f(k := f k \<union> set xs)) items f k =
     f k \<union> \<Union> (set ` {xs. (k, xs) \<in> set items})"
proof (induction items arbitrary: f)
  case Nil
  then show ?case by simp
next
  case (Cons p items)
  obtain a b where p: "p = (a, b)" by (cases p)
  have "{xs. (k, xs) \<in> set (p # items)} = (if k = a then {b} else {}) \<union> {xs. (k, xs) \<in> set items}"
    using p by auto
  then show ?case
    using Cons.IH [of "f(a := f a \<union> set b)"] p by auto
qed

lemma pools_loop:
  assumes "distinct ks" "fst ` set items \<subseteq> set ks"
  shows "fold_result (\<lambda>(k, xs). fold_result (\<lambda>v pools. pool_add pools k v) xs) items (tabulate ks f) =
           Inr (tabulate ks (\<lambda>k. f k \<union> \<Union> (set ` {xs. (k, xs) \<in> set items})))"
proof -
  have "fold_result (\<lambda>(k, xs). fold_result (\<lambda>v pools. pool_add pools k v) xs) items (tabulate ks f) =
          Inr (tabulate ks (fold (\<lambda>(k, xs) f. f(k := f k \<union> set xs)) items f))"
  proof (rule fold_result_tabulate)
    fix x :: "int \<times> string list" and f
    assume "x \<in> set items"
    with assms have "fst x \<in> set ks" by auto
    then show "(case x of (k, xs) \<Rightarrow> fold_result (\<lambda>v pools. pool_add pools k v) xs) (tabulate ks f) =
       Inr (tabulate ks ((case x of (k, xs) \<Rightarrow> \<lambda>f. f(k := f k \<union> set xs)) f))"
      using pool_loop [OF assms(1)] by (cases x) simp
  qed
  then show ?thesis by (simp add: fold_union_at [abs_def])
qed

lemma py_enumerate_mem:
  "(k, x) \<in> set (py_enumerate xs) \<longleftrightarrow> (0 \<le> k \<and> nat k < length xs \<and> x = xs ! nat k)"
proof
  assume "(k, x) \<in> set (py_enumerate xs)"
  then show "0 \<le> k \<and> nat k < length xs \<and> x = xs ! nat k"
    by (auto simp: py_enumerate_def set_zip)
next
  assume a: "0 \<le> k \<and> nat k < length xs \<and> x = xs ! nat k"
  then have "map int [0..<length xs] ! nat k = k" by simp
  with a show "(k, x) \<in> set (py_enumerate xs)"
    unfolding py_enumerate_def set_zip by (auto intro!: exI [of _ "nat k"])
qed

lemma pools_of_lines:
  assumes "length ls = nat n"
  shows "fold_result (\<lambda>(k, xs). fold_result (\<lambda>v pools. pool_add pools k v) xs)
           (py_enumerate ls) (map (\<lambda>i. (i, {})) (py_range n)) =
         Inr (map (\<lambda>i. (int i, set (ls ! i))) [0..<nat n])"
proof -
  have ks: "distinct (py_range n)"
    by (simp add: py_range_def distinct_map)
  have keys: "fst ` set (py_enumerate ls) \<subseteq> set (py_range n)"
    using assms by (auto simp: py_enumerate_mem set_py_range)
  have "fold_result (\<lambda>(k, xs). fold_result (\<lambda>v pools. pool_add pools k v) xs)
           (py_enumerate ls) (tabulate (py_range n) (\<lambda>_. {})) =
        Inr (tabulate (py_range n) (\<lambda>k. {} \<union> \<Union> (set ` {xs. (k, xs) \<in> set (py_enumerate ls)})))"
    by (rule pools_loop [OF ks keys])
  moreover have "tabulate (py_range n) (\<lambda>k. {} \<union> \<Union> (set ` {xs. (k, xs) \<in> set (py_enumerate ls)})) =
      map (\<lambda>i. (int i, set (ls ! i))) [0..<nat n]"
    using assms by (auto simp: tabulate_def py_range_def py_enumerate_mem)
  ultimately show ?thesis by (simp add: tabulate_def)
qed

lemma fold_append_at:
  "distinct js \<Longrightarrow>
   fold (\<lambda>j f. f(j := f j @ [c j])) js f = (\<lambda>i. if i \<in> set js then f i @ [c i] else f i)"
  by (induction js arbitrary: f) (auto simp: fun_eq_iff)

lemma tabulate_cong:
  "(\<And>k. k \<in> set ks \<Longrightarrow> f k = g k) \<Longrightarrow> tabulate ks f = tabulate ks g"
  by (simp add: tabulate_def)

lemma cols_row_loop:
  assumes "well_formed s" "0 \<le> r" "r < num_rows s"
  shows "fold_result (\<lambda>col_idx cols.
            case map_of cols col_idx of
              None \<Rightarrow> Inl KeyError
            | Some l \<Rightarrow>
                (case value_of s (r, col_idx) of
                   Inl e \<Rightarrow> Inl e
                 | Inr v \<Rightarrow> Inr (AList.update col_idx (l @ [v]) cols)))
           (py_range (num_cols s)) (tabulate (py_range (num_cols s)) f) =
         Inr (tabulate (py_range (num_cols s)) (\<lambda>i. f i @ [grid s ! nat r ! nat i]))"
proof -
  let ?ks = "py_range (num_cols s)"
  let ?F = "\<lambda>j f. f(j := f j @ [grid s ! nat r ! nat j])"
  have "fold_result (\<lambda>col_idx cols.
            case map_of cols col_idx of
              None \<Rightarrow> Inl KeyError
            | Some l \<Rightarrow>
                (case value_of s (r, col_idx) of
                   Inl e \<Rightarrow> Inl e
                 | Inr v \<Rightarrow> Inr (AList.update col_idx (l @ [v]) cols)))
           ?ks (tabulate ?ks f) = Inr (tabulate ?ks (fold ?F ?ks f))"
  proof (rule fold_result_tabulate)
    fix x f
    assume x: "x \<in> set ?ks"
    then have "0 \<le> x" "x < num_cols s" by (simp_all add: set_py_range)
    then have "value_of s (r, x) = Inr (grid s ! nat r ! nat x)"
      using assms by (simp add: value_of_in_grid)
    then show "(case map_of (tabulate ?ks f) x of
              None \<Rightarrow> Inl KeyError
            | Some l \<Rightarrow>
                (case value_of s (r, x) of
                   Inl e \<Rightarrow> Inl e
                 | Inr v \<Rightarrow> Inr (AList.update x (l @ [v]) (tabulate ?ks f)))) =
           Inr (tabulate ?ks (f(x := f x @ [grid s ! nat r ! nat x])))"
      using x by (simp add: map_of_tabulate update_tabulate distinct_py_range)
  qed
  also have "tabulate ?ks (fold ?F ?ks f) = tabulate ?ks (\<lambda>i. f i @ [grid s ! nat r ! nat i])"
    by (rule tabulate_cong) (simp add: fold_append_at distinct_py_range)
  finally show ?thesis .
qed

lemma fold_rows_append:
  "fold (\<lambda>r f i. f i @ [c r i]) rs f = (\<lambda>i. f i @ map (\<lambda>r. c r i) rs)"
  by (induction rs arbitrary: f) (auto simp: fun_eq_iff)

lemma map_result_tabulate:
  "set js \<subseteq> set ks \<Longrightarrow> map_result (dict_get (tabulate ks f)) js = Inr (map f js)"
  by (induction js) (auto simp: dict_get_def map_of_tabulate)

lemma get_cols_well_formed:
  assumes "well_formed s"
  shows "get_cols s =
           Inr (map (\<lambda>j. map (\<lambda>r. grid s ! nat r ! nat j) (py_range (num_rows s)))
                  (py_range (num_cols s)))"
proof -
  let ?ks = "py_range (num_cols s)"
  let ?rs = "py_range (num_rows s)"
  let ?inner = "\<lambda>row_idx. fold_result (\<lambda>col_idx cols.
            case map_of cols col_idx of
              None \<Rightarrow> Inl KeyError
            | Some l \<Rightarrow>
                (case value_of s (row_idx, col_idx) of
                   Inl e \<Rightarrow> Inl e
                 | Inr v \<Rightarrow> Inr (AList.update col_idx (l @ [v]) cols)))
           ?ks"
  have "fold_result ?inner ?rs (tabulate ?ks (\<lambda>_. [])) =
          Inr (tabulate ?ks (fold (\<lambda>r f i. f i @ [grid s ! nat r ! nat i]) ?rs (\<lambda>_. [])))"
  proof (rule fold_result_tabulate)
    fix x f
    assume "x \<in> set ?rs"
    then have "0 \<le> x" "x < num_rows s" by (simp_all add: set_py_range)
    then show "?inner x (tabulate ?ks f) = Inr (tabulate ?ks (\<lambda>i. f i @ [grid s ! nat x ! nat i]))"
      using assms by (rule_tac cols_row_loop)
  qed
  then have "fold_result ?inner ?rs (map (\<lambda>i. (i, [])) ?ks) =
          Inr (tabulate ?ks (\<lambda>i. map (\<lambda>r. grid s ! nat r ! nat i) ?rs))"
    by (simp add: fold_rows_append tabulate_def)
  then show ?thesis
    by (simp add: get_cols_def map_result_tabulate)
qed

lemma hpools_well_formed:
  assumes "well_formed s"
  shows "hpools s = Inr (map (\<lambda>i. (int i, set (grid s ! i))) [0..<nat (num_rows s)])"
  using assms pools_of_lines [of "grid s" "num_rows s"]
  by (simp add: hpools_def get_rows_def well_formed_def)

lemma vpools_well_formed:
  assumes "well_formed s"
  shows "vpools s =
           Inr (map (\<lambda>j. (int j, (\<lambda>row. row ! j) ` set (grid s))) [0..<nat (num_cols s)])"
proof -
  let ?cols = "map (\<lambda>j. map (\<lambda>r. grid s ! nat r ! nat j) (py_range (num_rows s)))
                  (py_range (num_cols s))"
  have len: "length ?cols = nat (num_cols s)"
    by (simp add: length_py_range)
  have "set (?cols ! j) = (\<lambda>row. row ! j) ` set (grid s)" if "j < nat (num_cols s)" for j
  proof -
    have "?cols ! j = map (\<lambda>r. grid s ! nat r ! j) (py_range (num_rows s))"
      using that by (simp add: py_range_def)
    also have "\<dots> = map (\<lambda>i. grid s ! i ! j) [0..<length (grid s)]"
      using assms by (simp add: py_range_def well_formed_def comp_def)
    also have "\<dots> = map (\<lambda>row. row ! j) (grid s)"
      by (rule nth_equalityI) simp_all
    finally show ?thesis by simp
  qed
  then have "map (\<lambda>i. (int i, set (?cols ! i))) [0..<nat (num_cols s)] =
        map (\<lambda>j. (int j, (\<lambda>row. row ! j) ` set (grid s))) [0..<nat (num_cols s)]"
    by simp
  with pools_of_lines [OF len] show ?thesis
    by (simp add: vpools_def get_cols_well_formed [OF assms])
qed

text \<open>
  Claim C3, as the code has it. On a grid that satisfies the class invariant, \<^verbatim>\<open>hpools()\<close>
  maps every row index, in order, to the set of all values of that row, and \<^verbatim>\<open>vpools()\<close>
  every column index to the set of all values of that column. No value is left out:
  the sentinel belongs to the pool of every row and column that has an empty cell.
\<close>

theorem pools_hold_every_value:
  assumes "well_formed s"
  shows "hpools s = Inr (map (\<lambda>i. (int i, set (grid s ! i))) [0..<nat (num_rows s)]) \<and>
         vpools s =
           Inr (map (\<lambda>j. (int j, (\<lambda>row. row ! j) ` set (grid s))) [0..<nat (num_cols s)])"
  using assms by (simp add: hpools_well_formed vpools_well_formed)

theorem pools_hold_every_value_witness:
  "well_formed (snd (insert_well ''A'' (0, 1) (PlateSet 1 2))) \<and>
   hpools (snd (insert_well ''A'' (0, 1) (PlateSet 1 2))) = Inr [(0, {''xxxxx'', ''A''})] \<and>
   vpools (snd (insert_well ''A'' (0, 1) (PlateSet 1 2))) = Inr [(0, {''xxxxx''}), (1, {''A''})]"
proof -
  have s: "snd (insert_well ''A'' (0, 1) (PlateSet 1 2)) =
             \<lparr>num_rows = 1, num_cols = 2, num_wells = 2, grid = [[''xxxxx'', ''A'']]\<rparr>"
    by code_simp
  have wf: "well_formed \<lparr>num_rows = 1, num_cols = 2, num_wells = 2, grid = [[''xxxxx'', ''A'']]\<rparr>"
    by (simp add: well_formed_def)
  have two: "[0..<2] = [0, Suc 0]"
    by (simp add: upt_rec)
  show ?thesis
    using wf pools_hold_every_value [OF wf] by (simp add: s two)
qed

text \<open>
  Claim C3 as stated fails on a fresh 1 x 1 grid: its only cell is empty, and the sentinel
  is the one member of its row pool and of its column pool.
\<close>

theorem pools_hold_sentinel:
  "null_value = ''xxxxx'' \<and>
   hpools (PlateSet 1 1) = Inr [(0, {''xxxxx''})] \<and>
   vpools (PlateSet 1 1) = Inr [(0, {''xxxxx''})]"
  by code_simp


section \<open>Random filling\<close>

text \<open>
  Two runs of the filling loops are followed side by side, cell by cell: both draw the
  same element when the generator is in the same state.
\<close>

lemma length_combinations: "v \<in> set (combinations xs k) \<Longrightarrow> length v = k"
  by (induction xs k arbitrary: v rule: combinations.induct) auto

lemma set_combinations: "v \<in> set (combinations xs k) \<Longrightarrow> set v \<subseteq> set xs"
  by (induction xs k arbitrary: v rule: combinations.induct) fastforce+

lemma combinations_nonempty: "k \<le> length xs \<Longrightarrow> combinations xs k \<noteq> []"
  by (induction xs k rule: combinations.induct) auto

lemma combinations_too_long: "length xs < k \<Longrightarrow> combinations xs k = []"
  by (induction xs k rule: combinations.induct) auto

lemma hd_combinations: "k \<le> length xs \<Longrightarrow> hd (combinations xs k) = take k xs"
  by (induction xs k rule: combinations.induct) (auto simp: hd_append hd_map combinations_nonempty)

lemma last_combinations: "k \<le> length xs \<Longrightarrow> last (combinations xs k) = drop (length xs - k) xs"
proof (induction xs k rule: combinations.induct)
  case (3 x xs k)
  show ?case
  proof (cases "Suc k \<le> length xs")
    case True
    then have "length xs - k = Suc (length xs - Suc k)" by simp
    with 3 True show ?thesis
      by (simp add: combinations_nonempty)
  next
    case False
    with 3 have k: "k = length xs" by simp
    with 3 k show ?thesis
      by (simp add: last_map combinations_nonempty combinations_too_long)
  qed
qed auto

lemma elements_nonempty: "elements \<noteq> []"
  by (simp add: elements_def alphabet_def FILL_def combinations_nonempty)

lemma random_choice_ok:
  assumes "below_bound randbelow" "seq \<noteq> []"
  shows "\<exists>v r'. random_choice randbelow seq r = (Inr v, r') \<and> v \<in> set seq"
proof -
  obtain i r' where d: "randbelow r (length seq) = (i, r')" by (cases "randbelow r (length seq)")
  with assms have "i < length seq"
    unfolding below_bound_def by (metis fst_conv length_greater_0_conv)
  with d assms show ?thesis
    by (simp add: random_choice_def py_index_nonneg)
qed

lemma fill_cell_step:
  assumes fa: "filled_alike nr nc D st1 st2" and bb: "below_bound randbelow"
    and rc: "0 \<le> row" "row < nr" "0 \<le> col" "col < nc"
  shows "\<exists>st1' st2'. fill_cell randbelow (row, col) st1 = (Inr (), st1') \<and>
           fill_cell randbelow (row, col) st2 = (Inr (), st2') \<and>
           filled_alike nr nc (insert (nat row, nat col) D) st1' st2'"
proof -
  obtain s1 r where st1: "st1 = (s1, r)" by (cases st1)
  obtain s2 r2 where st2': "st2 = (s2, r2)" by (cases st2)
  with fa st1 have st2: "st2 = (s2, r)" by (simp add: filled_alike_def)
  from fa st1 st2 have wf: "well_formed s1" "well_formed s2"
    and dims: "num_rows s1 = nr" "num_rows s2 = nr" "num_cols s1 = nc" "num_cols s2 = nc"
    and cells: "\<And>i j. (i, j) \<in> D \<Longrightarrow> grid s1 ! i ! j = grid s2 ! i ! j \<and> grid s1 ! i ! j \<in> set elements"
    by (auto simp: filled_alike_def)
  from random_choice_ok [OF bb elements_nonempty, of r]
  obtain v r' where ch: "random_choice randbelow elements r = (Inr v, r')" "v \<in> set elements"
    by blast
  let ?g1 = "(grid s1)[nat row := (grid s1 ! nat row)[nat col := v]]"
  let ?g2 = "(grid s2)[nat row := (grid s2 ! nat row)[nat col := v]]"
  have i1: "insert_well v (row, col) s1 = (Inr (), s1\<lparr>grid := ?g1\<rparr>)"
    using wf rc dims by (simp add: insert_well_in_grid)
  have i2: "insert_well v (row, col) s2 = (Inr (), s2\<lparr>grid := ?g2\<rparr>)"
    using wf rc dims by (simp add: insert_well_in_grid)
  have len: "nat row < length (grid s1)" "nat row < length (grid s2)"
    using wf rc dims by (simp_all add: well_formed_def)
  have len': "nat col < length (grid s1 ! nat row)" "nat col < length (grid s2 ! nat row)"
    using wf rc dims by (simp_all add: row_length)
  have c1: "?g1 ! i ! j = (if i = nat row \<and> j = nat col then v else grid s1 ! i ! j)" for i j
    using len len' by (simp add: nth_nth_update)
  have c2: "?g2 ! i ! j = (if i = nat row \<and> j = nat col then v else grid s2 ! i ! j)" for i j
    using len len' by (simp add: nth_nth_update)
  have "filled_alike nr nc (insert (nat row, nat col) D) (s1\<lparr>grid := ?g1\<rparr>, r') (s2\<lparr>grid := ?g2\<rparr>, r')"
    unfolding filled_alike_def
    using wf dims ch(2) cells by (auto simp: well_formed_update c1 c2)
  then show ?thesis
    by (simp add: fill_cell_def st1 st2 ch i1 i2)
qed

lemma fill_row_loop:
  assumes fa: "filled_alike nr nc D st1 st2" and bb: "below_bound randbelow"
    and r: "0 \<le> row" "row < nr"
  shows "\<exists>st1' st2'.
           for_loop (py_range nc) (\<lambda>col_idx. fill_cell randbelow (row, col_idx)) st1 = (Inr (), st1') \<and>
           for_loop (py_range nc) (\<lambda>col_idx. fill_cell randbelow (row, col_idx)) st2 = (Inr (), st2') \<and>
           filled_alike nr nc (D \<union> {nat row} \<times> nat ` set (py_range nc)) st1' st2'"
proof (rule for_loop_prefix_rel [where R = "\<lambda>ys. filled_alike nr nc (D \<union> {nat row} \<times> nat ` set ys)"])
  show "filled_alike nr nc (D \<union> {nat row} \<times> nat ` set []) st1 st2"
    using fa by simp
next
  fix ys x zs and s t :: "plateset \<times> 'a"
  assume xs: "py_range nc = ys @ x # zs"
    and R: "filled_alike nr nc (D \<union> {nat row} \<times> nat ` set ys) s t"
  from xs have "x \<in> set (py_range nc)" by simp
  then have x: "0 \<le> x" "x < nc" by (simp_all add: set_py_range)
  have eq: "D \<union> {nat row} \<times> nat ` set (ys @ [x]) =
            insert (nat row, nat x) (D \<union> {nat row} \<times> nat ` set ys)"
    by auto
  show "\<exists>s' t'. fill_cell randbelow (row, x) s = (Inr (), s') \<and>
                 fill_cell randbelow (row, x) t = (Inr (), t') \<and>
                 filled_alike nr nc (D \<union> {nat row} \<times> nat ` set (ys @ [x])) s' t'"
    unfolding eq by (rule fill_cell_step [OF R bb r x])
qed

lemma fill_grid_loop:
  assumes fa: "filled_alike nr nc {} st1 st2" and bb: "below_bound randbelow"
  shows "\<exists>st1' st2'.
           for_loop (py_range nr) (\<lambda>row_idx.
             for_loop (py_range nc) (\<lambda>col_idx. fill_cell randbelow (row_idx, col_idx))) st1 = (Inr (), st1') \<and>
           for_loop (py_range nr) (\<lambda>row_idx.
             for_loop (py_range nc) (\<lambda>col_idx. fill_cell randbelow (row_idx, col_idx))) st2 = (Inr (), st2') \<and>
           filled_alike nr nc (nat ` set (py_range nr) \<times> nat ` set (py_range nc)) st1' st2'"
proof (rule for_loop_prefix_rel [where R = "\<lambda>ys. filled_alike nr nc (nat ` set ys \<times> nat ` set (py_range nc))"])
  show "filled_alike nr nc (nat ` set [] \<times> nat ` set (py_range nc)) st1 st2"
    using fa by simp
next
  fix ys x zs and s t :: "plateset \<times> 'a"
  assume xs: "py_range nr = ys @ x # zs"
    and R: "filled_alike nr nc (nat ` set ys \<times> nat ` set (py_range nc)) s t"
  from xs have "x \<in> set (py_range nr)" by simp
  then have x: "0 \<le> x" "x < nr" by (simp_all add: set_py_range)
  have eq: "nat ` set (ys @ [x]) \<times> nat ` set (py_range nc) =
            nat ` set ys \<times> nat ` set (py_range nc) \<union> {nat x} \<times> nat ` set (py_range nc)"
    by auto
  show "\<exists>s' t'.
          for_loop (py_range nc) (\<lambda>col_idx. fill_cell randbelow (x, col_idx)) s = (Inr (), s') \<and>
          for_loop (py_range nc) (\<lambda>col_idx. fill_cell randbelow (x, col_idx)) t = (Inr (), t') \<and>
          filled_alike nr nc (nat ` set (ys @ [x]) \<times> nat ` set (py_range nc)) s' t'"
    unfolding eq by (rule fill_row_loop [OF R bb x])
qed

lemma elements_token:
  assumes "v \<in> set elements"
  shows "length v = 5 \<and> set v \<subseteq> set alphabet \<and> v \<noteq> null_value"
proof -
  from assms have l: "length v = 5" and a: "set v \<subseteq> set alphabet"
    using length_combinations set_combinations by (fastforce simp: elements_def FILL_def)+
  have "CHR ''x'' \<notin> set alphabet" by (simp add: alphabet_def)
  moreover have "CHR ''x'' \<in> set null_value" by (simp add: null_value_def FILL_def)
  ultimately have "v \<noteq> null_value" using a by auto
  with l a show ?thesis by simp
qed

lemma count_defaults_none:
  assumes wf: "well_formed s"
    and full: "\<forall>row \<in> set (grid s). \<forall>v \<in> set row. v \<noteq> null_value"
  shows "count_defaults s = Inr 0"
  unfolding count_defaults_def
proof (rule fold_result_const)
  fix r :: int and a :: int
  assume "r \<in> set (py_range (num_rows s))"
  then have r: "0 \<le> r" "r < num_rows s" by (simp_all add: set_py_range)
  show "fold_result (\<lambda>col_idx num_default.
            case value_of s (r, col_idx) of
              Inl e \<Rightarrow> Inl e
            | Inr v \<Rightarrow> Inr (if v = null_value then num_default + 1 else num_default))
          (py_range (num_cols s)) a = Inr a"
  proof (rule fold_result_const)
    fix c :: int and a :: int
    assume "c \<in> set (py_range (num_cols s))"
    then have c: "0 \<le> c" "c < num_cols s" by (simp_all add: set_py_range)
    have "grid s ! nat r ! nat c \<noteq> null_value"
      using full cell_in_grid [OF wf, of "nat r" "nat c"] r c by auto
    then show "(case value_of s (r, c) of
              Inl e \<Rightarrow> Inl e
            | Inr v \<Rightarrow> Inr (if v = null_value then a + 1 else a)) = Inr a"
      using wf r c by (simp add: value_of_in_grid)
  qed
qed

lemma filled_alike_cell:
  "filled_alike nr nc D st1 st2 \<Longrightarrow> (i, j) \<in> D \<Longrightarrow>
   grid (fst st1) ! i ! j = grid (fst st2) ! i ! j \<and> grid (fst st1) ! i ! j \<in> set elements"
  by (auto simp: filled_alike_def)

lemma filled_alike_start:
  "well_formed s1 \<Longrightarrow> well_formed s2 \<Longrightarrow> num_rows s1 = num_rows s2 \<Longrightarrow> num_cols s1 = num_cols s2 \<Longrightarrow>
   filled_alike (num_rows s1) (num_cols s1) {} (s1, r) (s2, r)"
  by (simp add: filled_alike_def)

lemma below_bound_edge: "below_bound edge_randbelow"
  by (simp add: below_bound_def edge_randbelow_def)

text \<open>
  Claim C10. On a grid that satisfies the class invariant, and with a generator whose draws
  stay below their bound, \<^verbatim>\<open>fill_randomly\<close> (whatever the seed) raises nothing and keeps the
  dimensions; afterwards every cell holds a string of 5 uppercase letters, none holds the
  sentinel, and \<^verbatim>\<open>count_defaults()\<close> returns 0.
\<close>

theorem fill_randomly_fills:
  assumes wf: "well_formed s" and bb: "below_bound randbelow"
  shows "\<exists>s' r'. fill_randomly seed_state randbelow seed (s, r) = (Inr (), (s', r')) \<and>
           num_rows s' = num_rows s \<and> num_cols s' = num_cols s \<and> well_formed s' \<and>
           (\<forall>row \<in> set (grid s'). \<forall>v \<in> set row.
              length v = 5 \<and> set v \<subseteq> set alphabet \<and> v \<noteq> null_value) \<and>
           count_defaults s' = Inr 0"
proof -
  let ?r0 = "if seed \<noteq> 0 then seed_state seed else r"
  from fill_grid_loop [OF filled_alike_start [OF wf wf refl refl, of ?r0] bb]
  obtain st1 st2 where
    run: "for_loop (py_range (num_rows s)) (\<lambda>row_idx.
             for_loop (py_range (num_cols s)) (\<lambda>col_idx. fill_cell randbelow (row_idx, col_idx)))
            (s, ?r0) = (Inr (), st1)"
    and fa: "filled_alike (num_rows s) (num_cols s)
               (nat ` set (py_range (num_rows s)) \<times> nat ` set (py_range (num_cols s))) st1 st2"
    by blast
  obtain s' r' where st1: "st1 = (s', r')" by (cases st1)
  from fa st1 have wf': "well_formed s'" and dims: "num_rows s' = num_rows s" "num_cols s' = num_cols s"
    by (simp_all add: filled_alike_def)
  have cells: "grid s' ! i ! j \<in> set elements" if "i < nat (num_rows s)" "j < nat (num_cols s)" for i j
  proof -
    from that have "(i, j) \<in> nat ` set (py_range (num_rows s)) \<times> nat ` set (py_range (num_cols s))"
      by (simp add: nat_set_py_range)
    from filled_alike_cell [OF fa this, THEN conjunct2] st1 show ?thesis by simp
  qed
  have tok: "v \<in> set elements" if "row \<in> set (grid s')" "v \<in> set row" for row v
  proof -
    from that(1) obtain i where i: "i < length (grid s')" "row = grid s' ! i"
      by (auto simp: in_set_conv_nth)
    from that(2) obtain j where j: "j < length row" "v = row ! j"
      by (auto simp: in_set_conv_nth)
    from i wf' dims have i': "i < nat (num_rows s)" by (simp add: well_formed_def)
    with i j wf' dims have "j < nat (num_cols s)" by (simp add: row_length)
    with i' i j show ?thesis by (simp add: cells)
  qed
  then have full: "\<forall>row \<in> set (grid s'). \<forall>v \<in> set row.
              length v = 5 \<and> set v \<subseteq> set alphabet \<and> v \<noteq> null_value"
    using elements_token by blast
  then have "count_defaults s' = Inr 0"
    using wf' by (intro count_defaults_none) auto
  with run st1 wf' dims full show ?thesis
    by (simp add: fill_randomly_def)
qed

theorem fill_randomly_fills_witness:
  "well_formed (PlateSet 2 3) \<and> below_bound edge_randbelow \<and>
   (\<exists>s' r'. fill_randomly counter_seed edge_randbelow 0 (PlateSet 2 3, 0) = (Inr (), (s', r')) \<and>
      num_rows s' = num_rows (PlateSet 2 3) \<and> num_cols s' = num_cols (PlateSet 2 3) \<and>
      well_formed s' \<and>
      (\<forall>row \<in> set (grid s'). \<forall>v \<in> set row.
         length v = 5 \<and> set v \<subseteq> set alphabet \<and> v \<noteq> null_value) \<and>
      count_defaults s' = Inr 0)"
proof -
  have wf: "well_formed (PlateSet 2 3)"
    by (rule well_formed_PlateSet)
  show ?thesis
    using wf below_bound_edge
      fill_randomly_fills [OF wf below_bound_edge,
        where seed_state = counter_seed and seed = 0 and r = 0]
    by blast
qed

text \<open>
  Claim C9, as the code has it. With a seed other than 0, two runs of \<^verbatim>\<open>fill_randomly\<close> on
  grids of the same dimensions end with the same cells and the same generator state,
  whatever the grids held and whatever state the generator was in.
\<close>

theorem fill_randomly_seeded:
  assumes seed: "seed \<noteq> 0" and bb: "below_bound randbelow"
    and wf: "well_formed s1" "well_formed s2"
    and dims: "num_rows s1 = num_rows s2" "num_cols s1 = num_cols s2"
  shows "\<exists>s1' s2' r'.
           fill_randomly seed_state randbelow seed (s1, r1) = (Inr (), (s1', r')) \<and>
           fill_randomly seed_state randbelow seed (s2, r2) = (Inr (), (s2', r')) \<and>
           grid s1' = grid s2'"
proof -
  from fill_grid_loop [OF filled_alike_start [OF wf dims, of "seed_state seed"] bb]
  obtain st1 st2 where
    run1: "for_loop (py_range (num_rows s1)) (\<lambda>row_idx.
             for_loop (py_range (num_cols s1)) (\<lambda>col_idx. fill_cell randbelow (row_idx, col_idx)))
            (s1, seed_state seed) = (Inr (), st1)"
    and run2: "for_loop (py_range (num_rows s1)) (\<lambda>row_idx.
             for_loop (py_range (num_cols s1)) (\<lambda>col_idx. fill_cell randbelow (row_idx, col_idx)))
            (s2, seed_state seed) = (Inr (), st2)"
    and fa: "filled_alike (num_rows s1) (num_cols s1)
               (nat ` set (py_range (num_rows s1)) \<times> nat ` set (py_range (num_cols s1))) st1 st2"
    by blast
  obtain s1' r' where st1: "st1 = (s1', r')" by (cases st1)
  obtain s2' r'' where st2: "st2 = (s2', r'')" by (cases st2)
  from fa st1 st2 have r: "r'' = r'" and wf': "well_formed s1'" "well_formed s2'"
    and d: "num_rows s1' = num_rows s1" "num_rows s2' = num_rows s1"
           "num_cols s1' = num_cols s1" "num_cols s2' = num_cols s1"
    by (simp_all add: filled_alike_def)
  have cells: "grid s1' ! i ! j = grid s2' ! i ! j"
    if "i < nat (num_rows s1)" "j < nat (num_cols s1)" for i j
  proof -
    from that have "(i, j) \<in> nat ` set (py_range (num_rows s1)) \<times> nat ` set (py_range (num_cols s1))"
      by (simp add: nat_set_py_range)
    from filled_alike_cell [OF fa this, THEN conjunct1] st1 st2 show ?thesis by simp
  qed
  have "grid s1' = grid s2'"
  proof (rule nth_equalityI)
    show "length (grid s1') = length (grid s2')"
      using wf' d by (simp add: well_formed_def)
  next
    fix i assume "i < length (grid s1')"
    with wf' d have i: "i < nat (num_rows s1)" by (simp add: well_formed_def)
    show "grid s1' ! i = grid s2' ! i"
    proof (rule nth_equalityI)
      show "length (grid s1' ! i) = length (grid s2' ! i)"
        using wf' d i by (simp add: row_length)
    next
      fix j assume "j < length (grid s1' ! i)"
      with wf' d i have "j < nat (num_cols s1)" by (simp add: row_length)
      with i show "grid s1' ! i ! j = grid s2' ! i ! j" by (rule cells)
    qed
  qed
  with run1 run2 st1 st2 r seed dims show ?thesis
    by (simp add: fill_randomly_def)
qed

theorem fill_randomly_seeded_witness:
  "(4::int) \<noteq> 0 \<and> below_bound edge_randbelow \<and>
   well_formed (PlateSet 1 1) \<and>
   well_formed \<lparr>num_rows = 1, num_cols = 1, num_wells = 1, grid = [[''TEST'']]\<rparr> \<and>
   num_rows (PlateSet 1 1) = num_rows \<lparr>num_rows = 1, num_cols = 1, num_wells = 1, grid = [[''TEST'']]\<rparr> \<and>
   num_cols (PlateSet 1 1) = num_cols \<lparr>num_rows = 1, num_cols = 1, num_wells = 1, grid = [[''TEST'']]\<rparr> \<and>
   (\<exists>s1' s2' r'.
      fill_randomly counter_seed edge_randbelow 4 (PlateSet 1 1, 0) = (Inr (), (s1', r')) \<and>
      fill_randomly counter_seed edge_randbelow 4
        (\<lparr>num_rows = 1, num_cols = 1, num_wells = 1, grid = [[''TEST'']]\<rparr>, 1) = (Inr (), (s2', r')) \<and>
      grid s1' = grid s2')"
proof -
  let ?t = "\<lparr>num_rows = 1, num_cols = 1, num_wells = 1, grid = [[''TEST'']]\<rparr>"
  have seed: "(4::int) \<noteq> 0" by simp
  have wf1: "well_formed (PlateSet 1 1)"
    by (rule well_formed_PlateSet)
  have wf2: "well_formed ?t"
    by (simp add: well_formed_def)
  have d1: "num_rows (PlateSet 1 1) = num_rows ?t"
    and d2: "num_cols (PlateSet 1 1) = num_cols ?t"
    by (simp_all add: PlateSet_def)
  show ?thesis
    using seed wf1 wf2 d1 d2 below_bound_edge
      fill_randomly_seeded [OF seed below_bound_edge wf1 wf2 d1 d2,
        where seed_state = counter_seed and ?r1.0 = 0 and ?r2.0 = 1]
    by blast
qed

lemma first_element: "py_index elements 0 = Inr ''ABCDE''"
proof -
  have "elements ! 0 = hd elements"
    using elements_nonempty by (simp add: hd_conv_nth)
  also have "\<dots> = ''ABCDE''"
    by (simp add: elements_def hd_combinations alphabet_def FILL_def)
  finally show ?thesis
    using elements_nonempty by (simp add: py_index_nonneg)
qed

lemma last_element: "py_index elements (int (length elements - 1)) = Inr ''VWXYZ''"
proof -
  have "elements ! (length elements - 1) = last elements"
    using elements_nonempty by (simp add: last_conv_nth)
  also have "\<dots> = ''VWXYZ''"
    by (simp add: elements_def last_combinations alphabet_def FILL_def)
  finally show ?thesis
    using elements_nonempty by (simp add: py_index_nonneg)
qed

lemma choice_edge:
  "random_choice edge_randbelow elements 0 = (Inr ''ABCDE'', Suc 0)"
  "random_choice edge_randbelow elements (Suc 0) = (Inr ''VWXYZ'', Suc (Suc 0))"
  using elements_nonempty first_element last_element
  by (simp_all add: random_choice_def edge_randbelow_def)

text \<open>
  Claim C9 as stated fails for the seed 0: the test \<^verbatim>\<open>if seed:\<close> takes 0 for no seed,
  the generator is left in the state it was in, and two runs on a fresh 1 x 1 grid from the
  generator states 0 and 1 end with different cells.
\<close>

theorem fill_randomly_seed_zero:
  "grid (fst (snd (fill_randomly counter_seed edge_randbelow 0 (PlateSet 1 1, 0)))) = [[''ABCDE'']] \<and>
   grid (fst (snd (fill_randomly counter_seed edge_randbelow 0 (PlateSet 1 1, Suc 0)))) = [[''VWXYZ'']]"
  by (simp add: fill_randomly_def fill_cell_def choice_edge PlateSet_def py_range_def
      insert_well_def in_range_def store_cell_def py_index_def py_store_def list_position_def)


section \<open>The deconvolver\<close>

text \<open>
  The first loop of \<^verbatim>\<open>solve\<close> computes the candidate lists, the second writes a cell for
  every list of one entry.
\<close>

lemma cand_of_record:
  "cand_of (record_candidate item p al) = (cand_of al)(item := cand_of al item @ [p])"
  by (auto simp: cand_of_def record_candidate_def update_conv' fun_eq_iff split: option.splits)

lemma distinct_record:
  "distinct (map fst al) \<Longrightarrow> distinct (map fst (record_candidate item p al))"
  by (simp add: record_candidate_def distinct_update split: option.splits)

lemma pools_with_Cons:
  "pools_with x ((i, xs) # d) = (if x \<in> set xs then i # pools_with x d else pools_with x d)"
  by (simp add: pools_with_def)

lemma scan_vpools:
  "cand_of (fold (\<lambda>(c, vs) al. if item \<in> set vs then record_candidate item (r, c) al else al) vp al) =
     (cand_of al)(item := cand_of al item @ map (Pair r) (pools_with item vp)) \<and>
   (distinct (map fst al) \<longrightarrow>
     distinct (map fst (fold (\<lambda>(c, vs) al. if item \<in> set vs then record_candidate item (r, c) al else al) vp al)))"
proof (induction vp arbitrary: al)
  case Nil
  then show ?case by (simp add: pools_with_def)
next
  case (Cons p vp)
  obtain c vs where p: "p = (c, vs)" by (cases p)
  show ?case
    using Cons.IH [of "record_candidate item (r, c) al"] Cons.IH [of al]
    by (simp add: p pools_with_Cons cand_of_record distinct_record fun_eq_iff)
qed

lemma scan_hpool:
  assumes "distinct hs"
  shows "cand_of (fold (\<lambda>item. fold (\<lambda>(c, vs) al.
            if item \<in> set vs then record_candidate item (r, c) al else al) vp) hs al) =
           (\<lambda>x. cand_of al x @ (if x \<in> set hs then map (Pair r) (pools_with x vp) else [])) \<and>
         (distinct (map fst al) \<longrightarrow>
           distinct (map fst (fold (\<lambda>item. fold (\<lambda>(c, vs) al.
            if item \<in> set vs then record_candidate item (r, c) al else al) vp) hs al)))"
  using assms
proof (induction hs arbitrary: al)
  case Nil
  then show ?case by simp
next
  case (Cons h hs)
  let ?al = "fold (\<lambda>(c, vs) al. if h \<in> set vs then record_candidate h (r, c) al else al) vp al"
  from Cons.prems have d: "distinct hs" and h: "h \<notin> set hs" by simp_all
  from scan_vpools [of h r vp al]
  have 1: "cand_of ?al = (cand_of al)(h := cand_of al h @ map (Pair r) (pools_with h vp))"
    and 2: "distinct (map fst al) \<longrightarrow> distinct (map fst ?al)"
    by simp_all
  from Cons.IH [OF d, of ?al] 1 2 h show ?case
    by (auto simp: fun_eq_iff)
qed

lemma scan_hpools:
  assumes "\<forall>(r, hs) \<in> set hp. distinct hs"
  shows "cand_of (fold (\<lambda>(r, hs). fold (\<lambda>item. fold (\<lambda>(c, vs) al.
            if item \<in> set vs then record_candidate item (r, c) al else al) vp) hs) hp al) =
           (\<lambda>x. cand_of al x @ List.product (pools_with x hp) (pools_with x vp)) \<and>
         (distinct (map fst al) \<longrightarrow>
           distinct (map fst (fold (\<lambda>(r, hs). fold (\<lambda>item. fold (\<lambda>(c, vs) al.
            if item \<in> set vs then record_candidate item (r, c) al else al) vp) hs) hp al)))"
  using assms
proof (induction hp arbitrary: al)
  case Nil
  then show ?case by (simp add: pools_with_def)
next
  case (Cons p hp)
  obtain r hs where p: "p = (r, hs)" by (cases p)
  let ?al = "fold (\<lambda>item. fold (\<lambda>(c, vs) al.
            if item \<in> set vs then record_candidate item (r, c) al else al) vp) hs al"
  from Cons.prems p have d: "distinct hs" and rest: "\<forall>(r, hs) \<in> set hp. distinct hs" by auto
  from scan_hpool [OF d, of r vp al]
  have 1: "cand_of ?al = (\<lambda>x. cand_of al x @ (if x \<in> set hs then map (Pair r) (pools_with x vp) else []))"
    and 2: "distinct (map fst al) \<longrightarrow> distinct (map fst ?al)"
    by simp_all
  from Cons.IH [OF rest, of ?al] 1 2 show ?case
    by (auto simp: p pools_with_Cons fun_eq_iff)
qed

lemma solved_items_candidates:
  assumes "dict_of_sets hp"
  shows "cand_of (solved_items_of hp vp) = candidates hp vp"
    and "distinct (map fst (solved_items_of hp vp))"
proof -
  from assms have "\<forall>(r, hs) \<in> set hp. distinct hs" by (simp add: dict_of_sets_def)
  from scan_hpools [OF this, of vp "[]"]
  show "cand_of (solved_items_of hp vp) = candidates hp vp"
    and "distinct (map fst (solved_items_of hp vp))"
    by (simp_all add: solved_items_of_def candidates_def cand_of_def fun_eq_iff)
qed

lemma solved_items_entry:
  assumes "dict_of_sets hp"
  shows "(item, l) \<in> set (solved_items_of hp vp) \<Longrightarrow> l = candidates hp vp item"
    and "candidates hp vp item \<noteq> [] \<Longrightarrow>
           (item, candidates hp vp item) \<in> set (solved_items_of hp vp)"
proof -
  note c = solved_items_candidates [OF assms, of vp]
  show "l = candidates hp vp item" if "(item, l) \<in> set (solved_items_of hp vp)"
  proof -
    from that c(2) have "map_of (solved_items_of hp vp) item = Some l" by simp
    then have "cand_of (solved_items_of hp vp) item = l" by (simp add: cand_of_def)
    with c(1) show ?thesis by simp
  qed
  show "(item, candidates hp vp item) \<in> set (solved_items_of hp vp)"
    if "candidates hp vp item \<noteq> []"
  proof -
    from that c(1) have "cand_of (solved_items_of hp vp) item \<noteq> []" by simp
    then obtain l where l: "map_of (solved_items_of hp vp) item = Some l"
      by (auto simp: cand_of_def split: option.splits)
    then have "cand_of (solved_items_of hp vp) item = l" by (simp add: cand_of_def)
    with c(1) have "l = candidates hp vp item" by simp
    with l show ?thesis by (simp add: map_of_SomeD)
  qed
qed

lemma candidates_keys:
  "(r, c) \<in> set (candidates hp vp item) \<Longrightarrow> r \<in> fst ` set hp \<and> c \<in> fst ` set vp"
  by (auto simp: candidates_def pools_with_def)

lemma place_items:
  assumes "well_formed g"
    and "\<forall>item r c. (item, [(r, c)]) \<in> set si \<longrightarrow>
           0 \<le> r \<and> r < num_rows g \<and> 0 \<le> c \<and> c < num_cols g"
  shows "\<exists>g'. for_loop si place_item g = (Inr (), g') \<and> well_formed g' \<and>
           num_rows g' = num_rows g \<and> num_cols g' = num_cols g \<and> num_wells g' = num_wells g \<and>
           (\<forall>i j. i < nat (num_rows g) \<longrightarrow> j < nat (num_cols g) \<longrightarrow>
              (if \<exists>item. (item, [(int i, int j)]) \<in> set si
               then (grid g' ! i ! j, [(int i, int j)]) \<in> set si
               else grid g' ! i ! j = grid g ! i ! j))"
  using assms
proof (induction si arbitrary: g)
  case Nil
  then show ?case by simp
next
  case (Cons e si)
  obtain item0 l0 where e: "e = (item0, l0)" by (cases e)
  show ?case
  proof (cases "length l0 = 1")
    case False
    then have skip: "place_item e g = (Inr (), g)"
      by (simp add: place_item_def e)
    have no: "(item, [(r, c)]) \<in> set (e # si) \<longleftrightarrow> (item, [(r, c)]) \<in> set si" for item r c
      using False e by auto
    from Cons.prems(2) have "\<forall>item r c. (item, [(r, c)]) \<in> set si \<longrightarrow>
           0 \<le> r \<and> r < num_rows g \<and> 0 \<le> c \<and> c < num_cols g"
      by simp
    from Cons.IH [OF Cons.prems(1) this]
    obtain g' where "for_loop si place_item g = (Inr (), g')" "well_formed g'"
      "num_rows g' = num_rows g" "num_cols g' = num_cols g" "num_wells g' = num_wells g"
      "\<forall>i j. i < nat (num_rows g) \<longrightarrow> j < nat (num_cols g) \<longrightarrow>
              (if \<exists>item. (item, [(int i, int j)]) \<in> set si
               then (grid g' ! i ! j, [(int i, int j)]) \<in> set si
               else grid g' ! i ! j = grid g ! i ! j)"
      by blast
    then show ?thesis
      by (simp only: for_loop.simps skip no) simp
  next
    case True
    then obtain p where "l0 = [p]" by (cases l0) auto
    then obtain r c where l0: "l0 = [(r, c)]" by (cases p) auto
    from Cons.prems(2) e l0
    have rc: "0 \<le> r" "r < num_rows g" "0 \<le> c" "c < num_cols g" by auto
    let ?g1 = "g\<lparr>grid := (grid g)[nat r := (grid g ! nat r)[nat c := item0]]\<rparr>"
    have step: "place_item e g = (Inr (), ?g1)"
      using Cons.prems(1) rc
      by (simp add: place_item_def e l0 py_index_nonneg insert_well_in_grid)
    have wf1: "well_formed ?g1"
      using Cons.prems(1) by (rule well_formed_update)
    have len: "nat r < length (grid g)" "nat c < length (grid g ! nat r)"
      using Cons.prems(1) rc by (simp_all add: well_formed_def)
    have cell1: "grid ?g1 ! i ! j = (if i = nat r \<and> j = nat c then item0 else grid g ! i ! j)" for i j
      using len by (simp add: nth_nth_update)
    from Cons.prems(2) have "\<forall>item r c. (item, [(r, c)]) \<in> set si \<longrightarrow>
           0 \<le> r \<and> r < num_rows ?g1 \<and> 0 \<le> c \<and> c < num_cols ?g1"
      by simp
    from Cons.IH [OF wf1 this]
    obtain g' where run: "for_loop si place_item ?g1 = (Inr (), g')" and wf': "well_formed g'"
      and dims: "num_rows g' = num_rows g" "num_cols g' = num_cols g" "num_wells g' = num_wells g"
      and cells: "\<And>i j. i < nat (num_rows g) \<Longrightarrow> j < nat (num_cols g) \<Longrightarrow>
              (if \<exists>item. (item, [(int i, int j)]) \<in> set si
               then (grid g' ! i ! j, [(int i, int j)]) \<in> set si
               else grid g' ! i ! j = grid ?g1 ! i ! j)"
      by auto
    have post: "if \<exists>item. (item, [(int i, int j)]) \<in> set (e # si)
               then (grid g' ! i ! j, [(int i, int j)]) \<in> set (e # si)
               else grid g' ! i ! j = grid g ! i ! j"
      if ij: "i < nat (num_rows g)" "j < nat (num_cols g)" for i j
    proof (cases "\<exists>item. (item, [(int i, int j)]) \<in> set si")
      case True
      with cells [OF ij] show ?thesis by auto
    next
      case False
      with cells [OF ij] have same: "grid g' ! i ! j = grid ?g1 ! i ! j" by simp
      show ?thesis
      proof (cases "r = int i \<and> c = int j")
        case True
        then have "grid ?g1 ! i ! j = item0" using cell1 [of i j] by simp
        with same True e l0 show ?thesis by auto
      next
        case False
        with rc have "\<not> (i = nat r \<and> j = nat c)" by auto
        then have "grid ?g1 ! i ! j = grid g ! i ! j" using cell1 [of i j] by auto
        with same False \<open>\<not> (\<exists>item. (item, [(int i, int j)]) \<in> set si)\<close> e l0
        show ?thesis by auto
      qed
    qed
    have "for_loop (e # si) place_item g = (Inr (), g')"
      using step run by simp
    with wf' dims post show ?thesis by blast
  qed
qed

lemma solve_cells:
  assumes hp: "dict_of_sets hp" "indices_within hp rows"
    and vp: "indices_within vp cols"
  shows "\<exists>out. solve hp vp rows cols = Inr out \<and> well_formed out \<and>
           num_rows out = rows \<and> num_cols out = cols \<and> num_wells out = cols * rows \<and>
           (\<forall>i j. i < nat rows \<longrightarrow> j < nat cols \<longrightarrow>
              (if \<exists>item. candidates hp vp item = [(int i, int j)]
               then candidates hp vp (grid out ! i ! j) = [(int i, int j)]
               else grid out ! i ! j = null_value))"
proof -
  let ?si = "solved_items_of hp vp"
  have entry: "(item, [(r, c)]) \<in> set ?si \<longleftrightarrow> candidates hp vp item = [(r, c)]" for item r c
  proof
    assume "(item, [(r, c)]) \<in> set ?si"
    from solved_items_entry(1) [OF hp(1) this] show "candidates hp vp item = [(r, c)]" by simp
  next
    assume c: "candidates hp vp item = [(r, c)]"
    then have "candidates hp vp item \<noteq> []" by simp
    from solved_items_entry(2) [OF hp(1) this] c show "(item, [(r, c)]) \<in> set ?si" by simp
  qed
  have "0 \<le> r \<and> r < num_rows (PlateSet rows cols) \<and> 0 \<le> c \<and> c < num_cols (PlateSet rows cols)"
    if "(item, [(r, c)]) \<in> set ?si" for item r c
  proof -
    from that have "(r, c) \<in> set (candidates hp vp item)" by (simp add: entry)
    then have "r \<in> fst ` set hp" "c \<in> fst ` set vp" using candidates_keys by blast+
    with hp(2) vp show ?thesis
      by (auto simp: indices_within_def PlateSet_dims)
  qed
  then have range: "\<forall>item r c. (item, [(r, c)]) \<in> set ?si \<longrightarrow>
      0 \<le> r \<and> r < num_rows (PlateSet rows cols) \<and> 0 \<le> c \<and> c < num_cols (PlateSet rows cols)"
    by blast
  from place_items [OF well_formed_PlateSet range]
  obtain g' where run: "for_loop ?si place_item (PlateSet rows cols) = (Inr (), g')"
    and wf': "well_formed g'"
    and dims: "num_rows g' = num_rows (PlateSet rows cols)" "num_cols g' = num_cols (PlateSet rows cols)"
      "num_wells g' = num_wells (PlateSet rows cols)"
    and cells: "\<And>i j. i < nat (num_rows (PlateSet rows cols)) \<Longrightarrow> j < nat (num_cols (PlateSet rows cols)) \<Longrightarrow>
              (if \<exists>item. (item, [(int i, int j)]) \<in> set ?si
               then (grid g' ! i ! j, [(int i, int j)]) \<in> set ?si
               else grid g' ! i ! j = grid (PlateSet rows cols) ! i ! j)"
    by blast
  have "if \<exists>item. candidates hp vp item = [(int i, int j)]
               then candidates hp vp (grid g' ! i ! j) = [(int i, int j)]
               else grid g' ! i ! j = null_value"
    if "i < nat rows" "j < nat cols" for i j
  proof (cases "\<exists>item. candidates hp vp item = [(int i, int j)]")
    case True
    then have "\<exists>item. (item, [(int i, int j)]) \<in> set ?si" by (simp add: entry)
    with cells [of i j] that have "(grid g' ! i ! j, [(int i, int j)]) \<in> set ?si"
      by (simp add: PlateSet_dims)
    with True show ?thesis by (simp add: entry)
  next
    case False
    then have "\<not> (\<exists>item. (item, [(int i, int j)]) \<in> set ?si)" by (simp add: entry)
    with cells [of i j] that have "grid g' ! i ! j = grid (PlateSet rows cols) ! i ! j"
      by (simp add: PlateSet_dims)
    with False that show ?thesis by (simp add: PlateSet_cell)
  qed
  with run wf' dims show ?thesis
    by (simp add: solve_def PlateSet_dims)
qed

text \<open>
  Claim C2, as the code has it. For dictionaries of sets whose indices are within the
  declared dimensions, \<^verbatim>\<open>solve\<close> raises nothing and returns a grid of these dimensions in
  which an item whose candidate list is the one pair \<open>(r, c)\<close> is at \<open>(r, c)\<close>, provided no
  other item has the same one candidate; and a cell \<open>(r, c)\<close> holds nothing but the sentinel
  or an item whose candidate list is exactly \<open>[(r, c)]\<close>. So an item with two entries or
  more is written to no cell.
\<close>

theorem solve_places_unique_candidates:
  assumes "dict_of_sets hp" "indices_within hp rows" "indices_within vp cols"
  shows "\<exists>out. solve hp vp rows cols = Inr out \<and> num_rows out = rows \<and> num_cols out = cols \<and>
           (\<forall>item r c. candidates hp vp item = [(r, c)] \<and>
                       (\<forall>item'. candidates hp vp item' = [(r, c)] \<longrightarrow> item' = item) \<longrightarrow>
                       value_of out (r, c) = Inr item) \<and>
           (\<forall>item r c. value_of out (r, c) = Inr item \<longrightarrow>
                       item = null_value \<or> candidates hp vp item = [(r, c)])"
proof -
  from solve_cells [OF assms]
  obtain out where run: "solve hp vp rows cols = Inr out" and wf: "well_formed out"
    and dims: "num_rows out = rows" "num_cols out = cols"
    and cells: "\<And>i j. i < nat rows \<Longrightarrow> j < nat cols \<Longrightarrow>
              (if \<exists>item. candidates hp vp item = [(int i, int j)]
               then candidates hp vp (grid out ! i ! j) = [(int i, int j)]
               else grid out ! i ! j = null_value)"
    by blast
  have placed: "value_of out (r, c) = Inr item"
    if c: "candidates hp vp item = [(r, c)]"
      and u: "\<forall>item'. candidates hp vp item' = [(r, c)] \<longrightarrow> item' = item" for item r c
  proof -
    from c have "(r, c) \<in> set (candidates hp vp item)" by simp
    then have "r \<in> fst ` set hp" "c \<in> fst ` set vp" using candidates_keys by blast+
    with assms(2,3) have rc: "0 \<le> r" "r < rows" "0 \<le> c" "c < cols"
      by (auto simp: indices_within_def)
    then have "nat r < nat rows" "nat c < nat cols" by simp_all
    from cells [OF this] c rc have "candidates hp vp (grid out ! nat r ! nat c) = [(r, c)]"
      by (auto split: if_splits)
    with u have "grid out ! nat r ! nat c = item" by simp
    with wf dims rc show ?thesis by (simp add: value_of_in_grid)
  qed
  have held: "item = null_value \<or> candidates hp vp item = [(r, c)]"
    if v: "value_of out (r, c) = Inr item" for item r c
  proof -
    from v dims have rc: "0 \<le> r" "r < rows" "0 \<le> c" "c < cols"
      by (auto simp: value_of_def in_range_def split: if_splits)
    with wf dims v have item: "item = grid out ! nat r ! nat c"
      by (simp add: value_of_in_grid)
    from rc have "nat r < nat rows" "nat c < nat cols" by simp_all
    from cells [OF this] rc item show ?thesis
      by (auto split: if_splits)
  qed
  from run dims placed held show ?thesis by blast
qed

theorem solve_places_unique_candidates_witness:
  "dict_of_sets [(0, [''A'', ''DUP'']), (1, [''DUP'', ''B''])] \<and>
   indices_within [(0, [''A'', ''DUP'']), (1, [''DUP'', ''B''])] 2 \<and>
   indices_within [(0, [''A'', ''DUP'']), (1, [''DUP'', ''B''])] 2 \<and>
   candidates [(0, [''A'', ''DUP'']), (1, [''DUP'', ''B''])]
     [(0, [''A'', ''DUP'']), (1, [''DUP'', ''B''])] ''A'' = [(0, 0)] \<and>
   candidates [(0, [''A'', ''DUP'']), (1, [''DUP'', ''B''])]
     [(0, [''A'', ''DUP'']), (1, [''DUP'', ''B''])] ''DUP'' = [(0, 0), (0, 1), (1, 0), (1, 1)] \<and>
   solve [(0, [''A'', ''DUP'']), (1, [''DUP'', ''B''])]
     [(0, [''A'', ''DUP'']), (1, [''DUP'', ''B''])] 2 2 =
     Inr \<lparr>num_rows = 2, num_cols = 2, num_wells = 4,
          grid = [[''A'', ''xxxxx''], [''xxxxx'', ''B'']]\<rparr> \<and>
   (\<exists>out. solve [(0, [''A'', ''DUP'']), (1, [''DUP'', ''B''])]
            [(0, [''A'', ''DUP'']), (1, [''DUP'', ''B''])] 2 2 = Inr out \<and>
      num_rows out = 2 \<and> num_cols out = 2 \<and>
      (\<forall>item r c.
          candidates [(0, [''A'', ''DUP'']), (1, [''DUP'', ''B''])]
            [(0, [''A'', ''DUP'']), (1, [''DUP'', ''B''])] item = [(r, c)] \<and>
          (\<forall>item'. candidates [(0, [''A'', ''DUP'']), (1, [''DUP'', ''B''])]
                      [(0, [''A'', ''DUP'']), (1, [''DUP'', ''B''])] item' = [(r, c)] \<longrightarrow>
                    item' = item) \<longrightarrow>
          value_of out (r, c) = Inr item) \<and>
      (\<forall>item r c. value_of out (r, c) = Inr item \<longrightarrow>
          item = null_value \<or>
          candidates [(0, [''A'', ''DUP'']), (1, [''DUP'', ''B''])]
            [(0, [''A'', ''DUP'']), (1, [''DUP'', ''B''])] item = [(r, c)]))"
proof -
  let ?d = "[(0, [''A'', ''DUP'']), (1, [''DUP'', ''B''])] :: pool_dict"
  have d: "dict_of_sets ?d"
    by (simp add: dict_of_sets_def)
  have i: "indices_within ?d 2"
    by (simp add: indices_within_def)
  have c: "candidates ?d ?d ''A'' = [(0, 0)]"
    "candidates ?d ?d ''DUP'' = [(0, 0), (0, 1), (1, 0), (1, 1)]"
    by code_simp+
  have s: "solve ?d ?d 2 2 =
     Inr \<lparr>num_rows = 2, num_cols = 2, num_wells = 4,
          grid = [[''A'', ''xxxxx''], [''xxxxx'', ''B'']]\<rparr>"
    by code_simp
  from solve_places_unique_candidates [OF d i i] d i c s show ?thesis
    by (intro conjI)
qed

text \<open>
  Claim C2 as stated fails when two items have the same one candidate. With the row pool
  and the column pool 0 both \<^verbatim>\<open>{"A", "B"}\<close> on a 1 x 1 grid, \<^verbatim>\<open>"A"\<close> and \<^verbatim>\<open>"B"\<close> each have
  the candidate list \<open>[(0, 0)]\<close>; the one that the iteration of the row pool yields last is
  in the cell, the other is nowhere.
\<close>

theorem solve_shared_candidate:
  "candidates [(0, [''A'', ''B''])] [(0, [''A'', ''B''])] ''A'' = [(0, 0)] \<and>
   solve [(0, [''A'', ''B''])] [(0, [''A'', ''B''])] 1 1 =
     Inr \<lparr>num_rows = 1, num_cols = 1, num_wells = 1, grid = [[''B'']]\<rparr> \<and>
   candidates [(0, [''B'', ''A''])] [(0, [''A'', ''B''])] ''B'' = [(0, 0)] \<and>
   solve [(0, [''B'', ''A''])] [(0, [''A'', ''B''])] 1 1 =
     Inr \<lparr>num_rows = 1, num_cols = 1, num_wells = 1, grid = [[''A'']]\<rparr>"
  by code_simp

lemma distinct_concat_rows:
  "distinct (concat xss) \<Longrightarrow> i < length xss \<Longrightarrow> k < length xss \<Longrightarrow>
   x \<in> set (xss ! i) \<Longrightarrow> x \<in> set (xss ! k) \<Longrightarrow> i = k"
proof (induction xss arbitrary: i k)
  case Nil
  then show ?case by simp
next
  case (Cons xs xss)
  from Cons.prems(1) have d: "distinct (concat xss)" and disj: "set xs \<inter> set (concat xss) = {}"
    by simp_all
  have later: "x \<in> set (concat xss)" if "m < length xss" "x \<in> set (xss ! m)" for m
    using that by (auto intro: nth_mem)
  show ?case
  proof (cases i)
    case 0
    show ?thesis
    proof (cases k)
      case 0
      with \<open>i = 0\<close> show ?thesis by simp
    next
      case (Suc m)
      with Cons.prems \<open>i = 0\<close> have "x \<in> set xs" "x \<in> set (concat xss)"
        using later [of m] by simp_all
      with disj show ?thesis by blast
    qed
  next
    case (Suc n)
    show ?thesis
    proof (cases k)
      case 0
      with Cons.prems \<open>i = Suc n\<close> have "x \<in> set xs" "x \<in> set (concat xss)"
        using later [of n] by simp_all
      with disj show ?thesis by blast
    next
      case (Suc m)
      with Cons.prems \<open>i = Suc n\<close> Cons.IH [OF d, of n m] show ?thesis by simp
    qed
  qed
qed

lemma distinct_concat_row:
  "distinct (concat xss) \<Longrightarrow> i < length xss \<Longrightarrow> distinct (xss ! i)"
  by (induction xss arbitrary: i) (auto simp: nth_Cons split: nat.splits)

lemma distinct_concat_cells:
  assumes "distinct (concat xss)" "i < length xss" "k < length xss"
    "j < length (xss ! i)" "l < length (xss ! k)" "xss ! i ! j = xss ! k ! l"
  shows "i = k \<and> j = l"
proof -
  have "xss ! i ! j \<in> set (xss ! i)"
    using assms(4) by simp
  moreover have "xss ! k ! l \<in> set (xss ! k)"
    using assms(5) by simp
  then have "xss ! i ! j \<in> set (xss ! k)"
    using assms(6) by simp
  ultimately have ik: "i = k"
    using assms(1-3) by (meson distinct_concat_rows)
  from assms have "distinct (xss ! i)" by (simp add: distinct_concat_row)
  with assms ik show ?thesis by (simp add: nth_eq_iff_index_eq)
qed

lemma filter_upt_single:
  assumes "i < n" "\<And>k. k < n \<Longrightarrow> P k \<longleftrightarrow> k = i"
  shows "filter P [0..<n] = [i]"
proof -
  have "filter P [0..<n] = filter (\<lambda>k. k = i) [0..<n]"
    using assms(2) by (intro filter_cong) auto
  also have "\<dots> = [i]"
    using assms(1) by (induction n) auto
  finally show ?thesis .
qed

lemma pools_with_table:
  "pools_with x (map (\<lambda>i. (int i, X i)) [0..<n]) = map int (filter (\<lambda>i. x \<in> set (X i)) [0..<n])"
  by (simp add: pools_with_def filter_map comp_def)

lemma iteration_of_table:
  assumes "iteration_of d (map (\<lambda>i. (int i, S i)) [0..<n])"
  shows "d = map (\<lambda>i. (int i, snd (d ! i))) [0..<n]"
    and "\<And>i. i < n \<Longrightarrow> distinct (snd (d ! i)) \<and> set (snd (d ! i)) = S i"
proof -
  from assms have len: "length d = n"
    and each: "\<And>i. i < n \<Longrightarrow> fst (d ! i) = int i \<and> distinct (snd (d ! i)) \<and> set (snd (d ! i)) = S i"
    by (simp_all add: iteration_of_def list_all2_conv_all_nth case_prod_beta)
  show "d = map (\<lambda>i. (int i, snd (d ! i))) [0..<n]"
  proof (rule nth_equalityI)
    show "length d = length (map (\<lambda>i. (int i, snd (d ! i))) [0..<n])" using len by simp
  next
    fix i assume "i < length d"
    with len each [of i] show "d ! i = map (\<lambda>i. (int i, snd (d ! i))) [0..<n] ! i"
      by (simp add: prod_eq_iff)
  qed
  show "distinct (snd (d ! i)) \<and> set (snd (d ! i)) = S i" if "i < n" for i
    using each [OF that] by simp
qed

lemma candidates_of_cell:
  assumes wf: "well_formed G" and dist: "distinct (concat (grid G))"
    and hp: "iteration_of hp (map (\<lambda>i. (int i, set (grid G ! i))) [0..<nat (num_rows G)])"
    and vp: "iteration_of vp (map (\<lambda>j. (int j, (\<lambda>row. row ! j) ` set (grid G))) [0..<nat (num_cols G)])"
    and i: "i < nat (num_rows G)" and j: "j < nat (num_cols G)"
  shows "candidates hp vp (grid G ! i ! j) = [(int i, int j)]"
proof -
  let ?x = "grid G ! i ! j"
  let ?nr = "nat (num_rows G)" and ?nc = "nat (num_cols G)"
  note hpt = iteration_of_table [OF hp]
  note vpt = iteration_of_table [OF vp]
  have len: "length (grid G) = ?nr" using wf by (simp add: well_formed_def)
  have rowlen: "length (grid G ! k) = ?nc" if "k < ?nr" for k
    using wf that by (simp add: row_length)
  have rows: "?x \<in> set (snd (hp ! k)) \<longleftrightarrow> k = i" if k: "k < ?nr" for k
  proof
    assume "?x \<in> set (snd (hp ! k))"
    with hpt(2) [OF k] have "?x \<in> set (grid G ! k)" by simp
    moreover have "?x \<in> set (grid G ! i)" using i j rowlen by simp
    ultimately show "k = i"
      using distinct_concat_rows [OF dist, of k i ?x] len i k by simp
  next
    assume "k = i"
    then show "?x \<in> set (snd (hp ! k))"
      using hpt(2) [OF k] i j rowlen by simp
  qed
  have cols: "?x \<in> set (snd (vp ! l)) \<longleftrightarrow> l = j" if l: "l < ?nc" for l
  proof
    assume "?x \<in> set (snd (vp ! l))"
    with vpt(2) [OF l] have "?x \<in> (\<lambda>row. row ! l) ` set (grid G)" by simp
    then obtain k where k: "k < ?nr" "?x = grid G ! k ! l"
      using len by (auto simp: in_set_conv_nth)
    with distinct_concat_cells [OF dist, of i k j l] len i j l rowlen show "l = j"
      by simp
  next
    assume "l = j"
    moreover have "grid G ! i \<in> set (grid G)" using i len by simp
    ultimately show "?x \<in> set (snd (vp ! l))"
      using vpt(2) [OF l] by auto
  qed
  have "pools_with ?x hp = [int i]"
    by (subst hpt(1)) (simp add: pools_with_table filter_upt_single [OF i rows])
  moreover have "pools_with ?x vp = [int j]"
    by (subst vpt(1)) (simp add: pools_with_table filter_upt_single [OF j cols])
  ultimately show ?thesis by (simp add: candidates_def)
qed

lemma table_dict:
  assumes "iteration_of d (map (\<lambda>i. (int i, S i)) [0..<nat n])"
  shows "dict_of_sets d" and "indices_within d n"
proof -
  note t = iteration_of_table [OF assms]
  have keys: "map fst d = map int [0..<nat n]"
    by (subst t(1)) (simp add: comp_def)
  have mem: "\<exists>i < nat n. k = int i \<and> xs = snd (d ! i)" if "(k, xs) \<in> set d" for k xs
  proof -
    from that have "(k, xs) \<in> set (map (\<lambda>i. (int i, snd (d ! i))) [0..<nat n])"
      using t(1) by simp
    then show ?thesis by auto
  qed
  show "dict_of_sets d"
    unfolding dict_of_sets_def
  proof (intro conjI ballI)
    show "distinct (map fst d)"
      by (simp add: keys distinct_map)
  next
    fix p assume p: "p \<in> set d"
    obtain k xs where kx: "p = (k, xs)" by (cases p)
    with p have "(k, xs) \<in> set d" by simp
    with mem [of k xs] t(2) kx show "case p of (i, xs) \<Rightarrow> distinct xs" by auto
  qed
  show "indices_within d n"
    unfolding indices_within_def
  proof (intro ballI)
    fix p assume p: "p \<in> set d"
    obtain k xs where kx: "p = (k, xs)" by (cases p)
    with p have "(k, xs) \<in> set d" by simp
    with mem [of k xs] kx show "case p of (i, xs) \<Rightarrow> 0 \<le> i \<and> i < n" by auto
  qed
qed

text \<open>
  Claim C1. Let \<open>G\<close> be a grid that satisfies the class invariant and whose cell values
  are pairwise distinct. Whatever the order in which the sets of \<^verbatim>\<open>G.hpools()\<close> and
  \<^verbatim>\<open>G.vpools()\<close> are iterated, \<^verbatim>\<open>solve\<close> on these pools and the dimensions of \<open>G\<close> raises
  nothing and returns \<open>G\<close>: the same dimensions and the same value in every cell. This
  covers the grids of the claim, of positive dimensions and without the sentinel; neither
  of the two restrictions is needed.
\<close>

theorem solve_round_trip:
  assumes wf: "well_formed G" and dist: "distinct (concat (grid G))"
    and pools: "hpools G = Inr hpools_G" "vpools G = Inr vpools_G"
    and iter: "iteration_of hp hpools_G" "iteration_of vp vpools_G"
  shows "solve hp vp (num_rows G) (num_cols G) = Inr G"
proof -
  let ?nr = "nat (num_rows G)" and ?nc = "nat (num_cols G)"
  from pools iter wf
  have hp: "iteration_of hp (map (\<lambda>i. (int i, set (grid G ! i))) [0..<?nr])"
    and vp: "iteration_of vp (map (\<lambda>j. (int j, (\<lambda>row. row ! j) ` set (grid G))) [0..<?nc])"
    by (simp_all add: hpools_well_formed vpools_well_formed)
  note hpt = iteration_of_table [OF hp]
  from solve_cells [OF table_dict [OF hp] table_dict(2) [OF vp]]
  obtain out where run: "solve hp vp (num_rows G) (num_cols G) = Inr out" and wf': "well_formed out"
    and dims: "num_rows out = num_rows G" "num_cols out = num_cols G"
      "num_wells out = num_cols G * num_rows G"
    and cells: "\<And>i j. i < ?nr \<Longrightarrow> j < ?nc \<Longrightarrow>
              (if \<exists>item. candidates hp vp item = [(int i, int j)]
               then candidates hp vp (grid out ! i ! j) = [(int i, int j)]
               else grid out ! i ! j = null_value)"
    by blast
  have same: "grid out ! i ! j = grid G ! i ! j" if i: "i < ?nr" and j: "j < ?nc" for i j
  proof -
    let ?y = "grid out ! i ! j"
    have "candidates hp vp (grid G ! i ! j) = [(int i, int j)]"
      by (rule candidates_of_cell [OF wf dist hp vp i j])
    then have "\<exists>item. candidates hp vp item = [(int i, int j)]" by blast
    with cells [OF i j] have c: "candidates hp vp ?y = [(int i, int j)]" by simp
    then have "(int i, int j) \<in> set (List.product (pools_with ?y hp) (pools_with ?y vp))"
      by (simp add: candidates_def)
    then have "int i \<in> set (pools_with ?y hp)" by simp
    then have "int i \<in> set (map int (filter (\<lambda>k. ?y \<in> set (snd (hp ! k))) [0..<?nr]))"
      by (subst (asm) hpt(1)) (simp only: pools_with_table)
    then have "?y \<in> set (snd (hp ! i))" by auto
    with hpt(2) [OF i] have "?y \<in> set (grid G ! i)" by simp
    then obtain l where l: "l < length (grid G ! i)" "?y = grid G ! i ! l"
      by (auto simp: in_set_conv_nth)
    with wf i have l': "l < ?nc" by (simp add: row_length)
    have "candidates hp vp (grid G ! i ! l) = [(int i, int l)]"
      by (rule candidates_of_cell [OF wf dist hp vp i l'])
    with c l have "l = j" by simp
    with l show ?thesis by simp
  qed
  have "grid out = grid G"
  proof (rule nth_equalityI)
    show "length (grid out) = length (grid G)"
      using wf wf' dims by (simp add: well_formed_def)
  next
    fix i assume "i < length (grid out)"
    with wf' dims have i: "i < ?nr" by (simp add: well_formed_def)
    show "grid out ! i = grid G ! i"
    proof (rule nth_equalityI)
      show "length (grid out ! i) = length (grid G ! i)"
        using wf wf' dims i by (simp add: row_length)
    next
      fix j assume "j < length (grid out ! i)"
      with wf' dims i have "j < ?nc" by (simp add: row_length)
      with i show "grid out ! i ! j = grid G ! i ! j" by (rule same)
    qed
  qed
  moreover have "num_wells out = num_wells G"
    using wf dims by (simp add: well_formed_def)
  ultimately have "out = G"
    using dims by (intro plateset.equality) simp_all
  with run show ?thesis by simp
qed

theorem solve_round_trip_witness:
  "well_formed \<lparr>num_rows = 2, num_cols = 2, num_wells = 4, grid = [[''A'', ''B''], [''C'', ''D'']]\<rparr> \<and>
   distinct (concat (grid \<lparr>num_rows = 2, num_cols = 2, num_wells = 4,
                           grid = [[''A'', ''B''], [''C'', ''D'']]\<rparr>)) \<and>
   hpools \<lparr>num_rows = 2, num_cols = 2, num_wells = 4, grid = [[''A'', ''B''], [''C'', ''D'']]\<rparr> =
     Inr [(0, {''A'', ''B''}), (1, {''C'', ''D''})] \<and>
   vpools \<lparr>num_rows = 2, num_cols = 2, num_wells = 4, grid = [[''A'', ''B''], [''C'', ''D'']]\<rparr> =
     Inr [(0, {''A'', ''C''}), (1, {''B'', ''D''})] \<and>
   iteration_of [(0, [''B'', ''A'']), (1, [''C'', ''D''])] [(0, {''A'', ''B''}), (1, {''C'', ''D''})] \<and>
   iteration_of [(0, [''A'', ''C'']), (1, [''D'', ''B''])] [(0, {''A'', ''C''}), (1, {''B'', ''D''})] \<and>
   solve [(0, [''B'', ''A'']), (1, [''C'', ''D''])] [(0, [''A'', ''C'']), (1, [''D'', ''B''])]
     (num_rows \<lparr>num_rows = 2, num_cols = 2, num_wells = 4, grid = [[''A'', ''B''], [''C'', ''D'']]\<rparr>)
     (num_cols \<lparr>num_rows = 2, num_cols = 2, num_wells = 4, grid = [[''A'', ''B''], [''C'', ''D'']]\<rparr>) =
     Inr \<lparr>num_rows = 2, num_cols = 2, num_wells = 4, grid = [[''A'', ''B''], [''C'', ''D'']]\<rparr>"
proof -
  let ?G = "\<lparr>num_rows = 2, num_cols = 2, num_wells = 4, grid = [[''A'', ''B''], [''C'', ''D'']]\<rparr>"
  have wf: "well_formed ?G"
    by (simp add: well_formed_def)
  have dist: "distinct (concat (grid ?G))"
    by simp
  have h: "hpools ?G = Inr [(0, {''A'', ''B''}), (1, {''C'', ''D''})]"
    by code_simp
  have v: "vpools ?G = Inr [(0, {''A'', ''C''}), (1, {''B'', ''D''})]"
    by code_simp
  have ih: "iteration_of [(0, [''B'', ''A'']), (1, [''C'', ''D''])]
              [(0, {''A'', ''B''}), (1, {''C'', ''D''})]"
    by (auto simp: iteration_of_def)
  have iv: "iteration_of [(0, [''A'', ''C'']), (1, [''D'', ''B''])]
              [(0, {''A'', ''C''}), (1, {''B'', ''D''})]"
    by (auto simp: iteration_of_def)
  from solve_round_trip [OF wf dist h v ih iv] wf dist h v ih iv show ?thesis
    by (intro conjI)
qed


end
